theory Spec2Isabelle
  imports Main "HOL-Library.Word"
begin

unbundle bit_operations_syntax

section \<open>Machine integers and undefined operations\<close>

text \<open>
  The C sources work on \<^verbatim>\<open>unsigned int\<close> (32 bits), \<^verbatim>\<open>unsigned long long\<close> and
  \<^verbatim>\<open>size_t\<close> (64 bits) and \<^verbatim>\<open>unsigned char\<close> (8 bits).  Array contents and Kraft
  sums are words, so every addition and subtraction wraps as in C.  Code lengths that are
  passed around as \<^verbatim>\<open>unsigned char\<close> parameters, loop counters and array indices are
  natural numbers; where the C value can wrap (the \<^verbatim>\<open>reduce--\<close> of \<^verbatim>\<open>limitedImpl\<close>, the
  \<^verbatim>\<open>depth++\<close> of Moffat's third phase, the truncating \<^verbatim>\<open>return A[0]\<close>) the reduction
  modulo 256 is written out.

  An access outside an array of known size and a shift by at least the width of the
  shifted type have no defined result in C; they are the two values of \<open>fault\<close>.
  A loop that may run forever is a \<^theory_text>\<open>partial_function\<close> in the option monad: \<open>None\<close>
  means that the call does not return.
\<close>

type_synonym u8 = "8 word"
type_synonym u32 = "32 word"
type_synonym u64 = "64 word"

datatype fault = Out_Of_Bounds | Undefined_Shift

text \<open>\<^verbatim>\<open>x << n\<close> on \<^verbatim>\<open>unsigned int\<close>, \<^verbatim>\<open>x << n\<close> and \<^verbatim>\<open>x >> n\<close> on \<^verbatim>\<open>unsigned long long\<close>.\<close>

definition shl_u32 :: "u32 \<Rightarrow> nat \<Rightarrow> fault + u32" where
  "shl_u32 x n = (if n < 32 then Inr (push_bit n x) else Inl Undefined_Shift)"

definition shl_u64 :: "u64 \<Rightarrow> nat \<Rightarrow> fault + u64" where
  "shl_u64 x n = (if n < 64 then Inr (push_bit n x) else Inl Undefined_Shift)"

definition shr_u64 :: "u64 \<Rightarrow> nat \<Rightarrow> fault + u64" where
  "shr_u64 x n = (if n < 64 then Inr (drop_bit n x) else Inl Undefined_Shift)"

text \<open>
  \<^verbatim>\<open>x << n\<close> on a (signed, 32-bit) \<^verbatim>\<open>int\<close>: defined only for a non-negative \<open>x\<close>, a
  shift count below 32 and a result that an \<^verbatim>\<open>int\<close> can hold.
\<close>

definition shl_int :: "32 word \<Rightarrow> nat \<Rightarrow> fault + 32 word" where
  "shl_int x n =
     (if n < 32 \<and> 0 \<le> sint x \<and> sint x * 2 ^ n < 2 ^ 31 then Inr (push_bit n x)
      else Inl Undefined_Shift)"

section \<open>limitedjpegdeflate.c: the two reducers of a length histogram\<close>

subsection \<open>limitedJpegInPlace\<close>

text \<open>
  \<^verbatim>\<open>unsigned char j = i - 2; while (j > 0 && histNumBits[j] == 0) j--;\<close>
  The function takes the start value \<open>i - 2\<close> and returns the final \<open>j\<close>.
\<close>

fun jpeg_find_shorter :: "u32 list \<Rightarrow> nat \<Rightarrow> nat" where
  "jpeg_find_shorter histNumBits 0 = 0"
| "jpeg_find_shorter histNumBits (Suc j) =
     (if histNumBits ! Suc j = 0 then jpeg_find_shorter histNumBits j else Suc j)"

text \<open>
  One demotion: \<^verbatim>\<open>histNumBits[i] -= 2; histNumBits[i - 1]++; histNumBits[j + 1] += 2;
  histNumBits[j]--;\<close> in this order, each on the array the previous one left.
\<close>

definition jpeg_demote :: "u32 list \<Rightarrow> nat \<Rightarrow> nat \<Rightarrow> u32 list" where
  "jpeg_demote histNumBits i j =
     (let h1 = histNumBits[i := histNumBits ! i - 2];
          h2 = h1[i - 1 := h1 ! (i - 1) + 1];
          h3 = h2[j + 1 := h2 ! (j + 1) + 2]
      in h3[j := h3 ! j - 1])"

text \<open>
  The main loop \<^verbatim>\<open>while (i > newMaxLength)\<close>.  In it \<open>i > newMaxLength \<ge> 2\<close>, so
  \<open>i - 1\<close> and \<open>i - 2\<close> do not wrap.
\<close>

partial_function (option) jpeg_loop :: "nat \<Rightarrow> nat \<Rightarrow> u32 list \<Rightarrow> (nat \<times> u32 list) option" where
  "jpeg_loop newMaxLength i histNumBits =
     (if i > newMaxLength then
        (if histNumBits ! i = 0 then jpeg_loop newMaxLength (i - 1) histNumBits
         else jpeg_loop newMaxLength i
                (jpeg_demote histNumBits i (jpeg_find_shorter histNumBits (i - 2))))
      else Some (i, histNumBits))"

declare jpeg_loop.simps [code]

text \<open>\<^verbatim>\<open>while (i > 0 && histNumBits[i] == 0) i--;\<close>\<close>

fun jpeg_longest_used :: "u32 list \<Rightarrow> nat \<Rightarrow> nat" where
  "jpeg_longest_used histNumBits 0 = 0"
| "jpeg_longest_used histNumBits (Suc i) =
     (if histNumBits ! Suc i = 0 then jpeg_longest_used histNumBits i else Suc i)"

text \<open>The result is the returned length and the histogram as the call leaves it.\<close>

definition limitedJpegInPlace :: "nat \<Rightarrow> nat \<Rightarrow> u32 list \<Rightarrow> (nat \<times> u32 list) option" where
  "limitedJpegInPlace newMaxLength oldMaxLength histNumBits =
     (if newMaxLength \<le> 1 then Some (0, histNumBits)
      else if newMaxLength > oldMaxLength then Some (0, histNumBits)
      else if newMaxLength = oldMaxLength then Some (newMaxLength, histNumBits)
      else case jpeg_loop newMaxLength oldMaxLength histNumBits of
             None \<Rightarrow> None
           | Some (i, h) \<Rightarrow> Some (jpeg_longest_used h i, h))"

subsection \<open>limitedMinizInPlace\<close>

text \<open>
  \<^verbatim>\<open>for (i = newMaxLength + 1; i <= oldMaxLength; i++)
    { histNumBits[newMaxLength] += histNumBits[i]; histNumBits[i] = 0; }\<close>
\<close>

definition miniz_collapse_step :: "nat \<Rightarrow> nat \<Rightarrow> u32 list \<Rightarrow> u32 list" where
  "miniz_collapse_step newMaxLength i histNumBits =
     (let h1 = histNumBits[newMaxLength := histNumBits ! newMaxLength + histNumBits ! i]
      in h1[i := 0])"

definition miniz_collapse :: "nat \<Rightarrow> nat \<Rightarrow> u32 list \<Rightarrow> u32 list" where
  "miniz_collapse newMaxLength oldMaxLength histNumBits =
     fold (miniz_collapse_step newMaxLength) [Suc newMaxLength..<Suc oldMaxLength] histNumBits"

text \<open>
  \<^verbatim>\<open>for (i = newMaxLength; i > 0; i--) total += histNumBits[i] << (newMaxLength - i);\<close>
  The shift is done on the \<^verbatim>\<open>unsigned int\<close> operand, in 32 bits, and only its result is
  widened to the 64 bits of \<open>total\<close>.
\<close>

fun miniz_kraft_total :: "u32 list \<Rightarrow> nat \<Rightarrow> nat \<Rightarrow> u64 \<Rightarrow> fault + u64" where
  "miniz_kraft_total histNumBits newMaxLength 0 tot = Inr tot"
| "miniz_kraft_total histNumBits newMaxLength (Suc i) tot =
     (case shl_u32 (histNumBits ! Suc i) (newMaxLength - Suc i) of
        Inl f \<Rightarrow> Inl f
      | Inr t \<Rightarrow> miniz_kraft_total histNumBits newMaxLength i (tot + ucast t))"

text \<open>
  \<^verbatim>\<open>for (i = newMaxLength - 1; i > 0; i--) if (histNumBits[i] > 0) { ... break; }\<close>:
  the index the loop stops at, if any.
\<close>

fun miniz_find_shorter :: "u32 list \<Rightarrow> nat \<Rightarrow> nat option" where
  "miniz_find_shorter histNumBits 0 = None"
| "miniz_find_shorter histNumBits (Suc i) =
     (if histNumBits ! Suc i > 0 then Some (Suc i) else miniz_find_shorter histNumBits i)"

text \<open>The body of \<^verbatim>\<open>while (total > one)\<close> without its \<^verbatim>\<open>total--\<close>.\<close>

definition miniz_move :: "nat \<Rightarrow> u32 list \<Rightarrow> u32 list" where
  "miniz_move newMaxLength histNumBits =
     (let h1 = histNumBits[newMaxLength := histNumBits ! newMaxLength - 1]
      in case miniz_find_shorter h1 (newMaxLength - 1) of
           None \<Rightarrow> h1
         | Some i \<Rightarrow> (let h2 = h1[i := h1 ! i - 1] in h2[i + 1 := h2 ! (i + 1) + 2]))"

function miniz_loop :: "nat \<Rightarrow> u64 \<Rightarrow> u64 \<Rightarrow> u32 list \<Rightarrow> u32 list" where
  "miniz_loop newMaxLength one tot histNumBits =
     (if tot > one then miniz_loop newMaxLength one (tot - 1) (miniz_move newMaxLength histNumBits)
      else histNumBits)"
  by pat_completeness auto
termination
proof (relation "measure (\<lambda>(newMaxLength, one, tot, histNumBits). unat tot)")
  show "wf (measure (\<lambda>(newMaxLength, one, tot, histNumBits). unat tot))"
    by simp
next
  fix newMaxLength :: nat and one tot :: u64 and histNumBits :: "u32 list"
  assume "one < tot"
  then have "tot \<noteq> 0"
    by auto
  then have "unat (tot - 1) < unat tot"
    by (simp add: unat_minus_one unat_gt_0)
  then show "((newMaxLength, one, tot - 1, miniz_move newMaxLength histNumBits),
              (newMaxLength, one, tot, histNumBits))
             \<in> measure (\<lambda>(newMaxLength, one, tot, histNumBits). unat tot)"
    by simp
qed

definition limitedMinizInPlace :: "nat \<Rightarrow> nat \<Rightarrow> u32 list \<Rightarrow> fault + nat \<times> u32 list" where
  "limitedMinizInPlace newMaxLength oldMaxLength histNumBits =
     (if newMaxLength \<le> 1 then Inr (0, histNumBits)
      else if newMaxLength > oldMaxLength then Inr (0, histNumBits)
      else if newMaxLength = oldMaxLength then Inr (newMaxLength, histNumBits)
      else let h = miniz_collapse newMaxLength oldMaxLength histNumBits
           in case miniz_kraft_total h newMaxLength newMaxLength 0 of
                Inl f \<Rightarrow> Inl f
              | Inr tot \<Rightarrow>
                  (case shl_u64 1 newMaxLength of
                     Inl f \<Rightarrow> Inl f
                   | Inr one \<Rightarrow> Inr (newMaxLength, miniz_loop newMaxLength one tot h)))"

section \<open>moffat.c\<close>

text \<open>A \<^verbatim>\<open>for\<close> loop whose body can fault: the first fault ends the loop.\<close>

fun for_each :: "('a \<Rightarrow> 's \<Rightarrow> fault + 's) \<Rightarrow> 'a list \<Rightarrow> 's \<Rightarrow> fault + 's" where
  "for_each body [] s = Inr s"
| "for_each body (x # xs) s =
     (case body x s of Inl f \<Rightarrow> Inl f | Inr s' \<Rightarrow> for_each body xs s')"

subsection \<open>moffatSortedInPlace\<close>

text \<open>
  Phase 1, the state is \<open>(leaf, root, A)\<close>.  \<^verbatim>\<open>A[leaf]\<close> is read only when
  \<open>leaf < numCodes\<close> and \<^verbatim>\<open>A[root]\<close> in the condition only when \<open>root < next\<close>, both
  inside the array; the root branch taken because the leaves are used up reads and writes
  \<^verbatim>\<open>A[root]\<close> without such a guard.
\<close>

definition moffat_first_child ::
  "nat \<Rightarrow> nat \<Rightarrow> nat \<times> nat \<times> u32 list \<Rightarrow> fault + nat \<times> nat \<times> u32 list" where
  "moffat_first_child numCodes next s =
     (case s of (leaf, root, A) \<Rightarrow>
        if leaf \<ge> numCodes \<or> (root < next \<and> A ! root < A ! leaf)
        then (if root < length A
              then Inr (leaf, root + 1, (A[next := A ! root])[root := of_nat next])
              else Inl Out_Of_Bounds)
        else Inr (leaf + 1, root, A[next := A ! leaf]))"

definition moffat_second_child ::
  "nat \<Rightarrow> nat \<Rightarrow> nat \<times> nat \<times> u32 list \<Rightarrow> fault + nat \<times> nat \<times> u32 list" where
  "moffat_second_child numCodes next s =
     (case s of (leaf, root, A) \<Rightarrow>
        if leaf \<ge> numCodes \<or> (root < next \<and> A ! root < A ! leaf)
        then (if root < length A
              then Inr (leaf, root + 1, (A[next := A ! next + A ! root])[root := of_nat next])
              else Inl Out_Of_Bounds)
        else Inr (leaf + 1, root, A[next := A ! next + A ! leaf]))"

definition moffat_combine ::
  "nat \<Rightarrow> nat \<Rightarrow> nat \<times> nat \<times> u32 list \<Rightarrow> fault + nat \<times> nat \<times> u32 list" where
  "moffat_combine numCodes next s =
     (case moffat_first_child numCodes next s of
        Inl f \<Rightarrow> Inl f
      | Inr s1 \<Rightarrow> moffat_second_child numCodes next s1)"

definition moffat_phase1 :: "nat \<Rightarrow> u32 list \<Rightarrow> fault + u32 list" where
  "moffat_phase1 numCodes A =
     (case for_each (moffat_combine numCodes) [0..<numCodes - 1] (0, 0, A) of
        Inl f \<Rightarrow> Inl f
      | Inr (leaf, root, A1) \<Rightarrow> Inr A1)"

text \<open>
  Phase 2: \<^verbatim>\<open>A[numCodes - 2] = 0; for (j = numCodes - 3; j >= 0; j--) A[j] = A[A[j]] + 1;\<close>
\<close>

definition moffat_depth_of :: "nat \<Rightarrow> u32 list \<Rightarrow> fault + u32 list" where
  "moffat_depth_of j A =
     (if unat (A ! j) < length A then Inr (A[j := A ! unat (A ! j) + 1]) else Inl Out_Of_Bounds)"

definition moffat_phase2 :: "nat \<Rightarrow> u32 list \<Rightarrow> fault + u32 list" where
  "moffat_phase2 numCodes A =
     for_each moffat_depth_of (rev [0..<numCodes - 2]) (A[numCodes - 2 := 0])"

text \<open>
  Phase 3.  \<^verbatim>\<open>while (root2 >= 0 && A[root2] == depth) { used++; root2--; }\<close>
  where \<open>root2\<close> is an \<^verbatim>\<open>int\<close> and \<open>depth\<close> an \<^verbatim>\<open>unsigned char\<close>.
\<close>

function moffat_count_level :: "u32 list \<Rightarrow> nat \<Rightarrow> int \<Rightarrow> u32 \<Rightarrow> int \<times> u32" where
  "moffat_count_level A depth root2 used =
     (if root2 \<ge> 0 \<and> unat (A ! nat root2) = depth
      then moffat_count_level A depth (root2 - 1) (used + 1)
      else (root2, used))"
  by pat_completeness auto
termination
  by (relation "measure (\<lambda>(A, depth, root2, used). nat (root2 + 1))") auto

declare moffat_count_level.simps [simp del]

text \<open>\<^verbatim>\<open>while (avail > used) { A[next] = depth; next--; avail--; }\<close>\<close>

function moffat_fill ::
  "nat \<Rightarrow> u32 \<Rightarrow> u32 list \<times> u32 \<times> u32 \<Rightarrow> fault + u32 list \<times> u32 \<times> u32" where
  "moffat_fill depth used (A, next, avail) =
     (if avail > used then
        (if unat next < length A
         then moffat_fill depth used (A[unat next := of_nat depth], next - 1, avail - 1)
         else Inl Out_Of_Bounds)
      else Inr (A, next, avail))"
  by pat_completeness auto
termination
proof (relation "measure (\<lambda>(depth, used, A, next, avail). unat avail)", goal_cases)
  case 1
  show ?case
    by simp
next
  case (2 depth used A nxt avail)
  then have "avail \<noteq> 0"
    by auto
  then have "unat (avail - 1) < unat avail"
    by (simp add: unat_minus_one unat_gt_0)
  then show ?case
    by simp
qed

declare moffat_fill.simps [simp del]

text \<open>
  \<^verbatim>\<open>while (avail > 0) { ...; avail = 2 * used; depth++; used = 0; }\<close>
  The \<^verbatim>\<open>unsigned char depth\<close> wraps from 255 to 0.
\<close>

function moffat_spread :: "u32 \<Rightarrow> nat \<Rightarrow> int \<Rightarrow> u32 \<Rightarrow> u32 list \<Rightarrow> fault + u32 list" where
  "moffat_spread avail depth root2 next A =
     (if avail > 0 then
        (let level = moffat_count_level A depth root2 0;
             used = snd level
         in case moffat_fill depth used (A, next, avail) of
              Inl f \<Rightarrow> Inl f
            | Inr filled \<Rightarrow>
                moffat_spread (2 * used) ((depth + 1) mod 256) (fst level)
                  (fst (snd filled)) (fst filled))
      else Inr A)"
  by pat_completeness auto
termination
proof (relation "measures [\<lambda>(avail, depth, root2, next, A). nat (root2 + 1),
                           \<lambda>(avail, depth, root2, next, A). if avail = 0 then 0 else 1]", goal_cases)
  case 1
  then show ?case by simp
next
  case (2 avail depth root2 nxt A level used filled)
  have le: "r \<le> root2 \<and> (r = root2 \<longrightarrow> u = used) \<and> (r \<noteq> root2 \<longrightarrow> 0 \<le> root2)"
    if "moffat_count_level A depth root2 used = (r, u)" for A depth root2 used r u
    using that
  proof (induction A depth root2 used rule: moffat_count_level.induct)
    case (1 A depth root2 used)
    show ?case
    proof (cases "root2 \<ge> 0 \<and> unat (A ! nat root2) = depth")
      case True
      with "1.prems" have "moffat_count_level A depth (root2 - 1) (used + 1) = (r, u)"
        by (simp add: moffat_count_level.simps [of A depth root2])
      from "1.IH" [OF True this] True show ?thesis
        by auto
    next
      case False
      with "1.prems" show ?thesis
        by (simp add: moffat_count_level.simps [of A depth root2])
    qed
  qed
  obtain r u where ru: "moffat_count_level A depth root2 0 = (r, u)"
    by (cases "moffat_count_level A depth root2 0")
  from le [OF ru]
  have "r \<le> root2" and "r = root2 \<longrightarrow> u = 0" and "r \<noteq> root2 \<longrightarrow> 0 \<le> root2"
    by auto
  with 2 ru show ?case
    by (cases "r = root2") auto
qed

declare moffat_spread.simps [simp del]

text \<open>
  The array has \<open>numCodes\<close> elements.  The result is the returned \<^verbatim>\<open>unsigned char\<close>
  (\<^verbatim>\<open>return A[0]\<close> keeps the low 8 bits) and the array as the call leaves it.
\<close>

definition moffatSortedInPlace :: "u32 list \<Rightarrow> fault + nat \<times> u32 list" where
  "moffatSortedInPlace A =
     (let numCodes = length A in
      if numCodes \<le> 0 then Inr (0, A)
      else if numCodes = 1 then Inr (1, A[0 := 1])
      else case moffat_phase1 numCodes A of
             Inl f \<Rightarrow> Inl f
           | Inr A1 \<Rightarrow>
               (case moffat_phase2 numCodes A1 of
                  Inl f \<Rightarrow> Inl f
                | Inr A2 \<Rightarrow>
                    (case moffat_spread 1 0 (int numCodes - 2) (of_nat (numCodes - 1)) A2 of
                       Inl f \<Rightarrow> Inl f
                     | Inr A3 \<Rightarrow> Inr (unat (A3 ! 0) mod 256, A3))))"

subsection \<open>Sorting the used symbols\<close>

text \<open>
  \<^verbatim>\<open>struct KeyValue { unsigned int key; unsigned int value; }\<close> is the pair
  \<open>(key, value)\<close>; the value is an index into the histogram.
  \<^verbatim>\<open>compareKeyValue\<close> returns the difference of the two unsigned keys as an \<^verbatim>\<open>int\<close>.
\<close>

type_synonym KeyValue = "u32 \<times> nat"

definition compareKeyValue :: "KeyValue \<Rightarrow> KeyValue \<Rightarrow> int" where
  "compareKeyValue aa bb = sint (fst aa - fst bb)"

text \<open>
  Modelled from the spec: the C library's \<^verbatim>\<open>qsort\<close> is not part of the repository.  It
  orders the array by the comparison function and leaves the order of elements that compare
  equal open; here it is a stable insertion sort driven by \<open>compareKeyValue\<close>.
\<close>

fun qsort_insert :: "KeyValue \<Rightarrow> KeyValue list \<Rightarrow> KeyValue list" where
  "qsort_insert x [] = [x]"
| "qsort_insert x (y # ys) =
     (if compareKeyValue x y \<le> 0 then x # y # ys else y # qsort_insert x ys)"

definition qsort :: "KeyValue list \<Rightarrow> KeyValue list" where
  "qsort mapping = foldr qsort_insert mapping []"

text \<open>
  The loop that copies the used symbols:
  \<^verbatim>\<open>if (histogram[i] == 0) continue; mapping[storeAt].key = histogram[i];
  mapping[storeAt].value = i; storeAt++;\<close>
\<close>

definition used_symbols :: "u32 list \<Rightarrow> KeyValue list" where
  "used_symbols histogram =
     filter (\<lambda>kv. fst kv \<noteq> 0) (zip histogram [0..<length histogram])"

text \<open>\<^verbatim>\<open>for (i = 0; i < numCodes; i++) codeLengths[i] = 0;\<close>\<close>

definition clear_lengths :: "nat \<Rightarrow> u8 list \<Rightarrow> u8 list" where
  "clear_lengths numCodes codeLengths = fold (\<lambda>i cl. cl[i := 0]) [0..<numCodes] codeLengths"

text \<open>
  \<^verbatim>\<open>for (i = 0; i < numNonZero; i++) codeLengths[mapping[i].value] = sorted[i];\<close>
  The assignment keeps the low 8 bits of the \<^verbatim>\<open>unsigned int\<close>.
\<close>

definition restore_order :: "KeyValue list \<Rightarrow> u32 list \<Rightarrow> u8 list \<Rightarrow> u8 list" where
  "restore_order mapping sorted1 codeLengths =
     fold (\<lambda>i cl. cl[snd (mapping ! i) := ucast (sorted1 ! i)]) [0..<length mapping] codeLengths"

subsection \<open>moffat\<close>

text \<open>
  The arrays \<open>histogram\<close> and \<open>codeLengths\<close> have \<open>numCodes\<close> elements; the second
  argument is the caller's buffer as it is before the call.
\<close>

definition moffat :: "u32 list \<Rightarrow> u8 list \<Rightarrow> fault + nat \<times> u8 list" where
  "moffat histogram codeLengths =
     (let numCodes = length histogram;
          codeLengths1 = fold (\<lambda>i cl. if histogram ! i = 0 then cl[i := 0] else cl)
                           [0..<numCodes] codeLengths;
          numNonZero = length (filter (\<lambda>x. x \<noteq> 0) histogram)
      in if numNonZero = 0 then Inr (0, codeLengths1)
         else let mapping = qsort (used_symbols histogram);
                  sorted0 = map fst mapping
              in case moffatSortedInPlace sorted0 of
                   Inl f \<Rightarrow> Inl f
                 | Inr (result, sorted1) \<Rightarrow>
                     Inr (result, restore_order mapping sorted1 codeLengths1))"


section \<open>limitedjpegdeflate.c: limitedImpl\<close>

text \<open>
  \<^verbatim>\<open>unsigned int histNumBits[64] = { 0 }; for (...) histNumBits[sorted[i]]++;\<close>
\<close>

definition count_length :: "u32 \<Rightarrow> u32 list \<Rightarrow> fault + u32 list" where
  "count_length len histNumBits =
     (if unat len < length histNumBits
      then Inr (histNumBits[unat len := histNumBits ! unat len + 1])
      else Inl Out_Of_Bounds)"

text \<open>
  \<^verbatim>\<open>while (histNumBits[reduce] == 0) reduce--;\<close> on the 64-element array, with the
  \<^verbatim>\<open>unsigned char reduce\<close> that wraps from 0 to 255.
\<close>

function next_used_length :: "u32 list \<Rightarrow> nat \<Rightarrow> fault + nat" where
  "next_used_length histNumBits reduce =
     (if reduce \<ge> 64 then Inl Out_Of_Bounds
      else if histNumBits ! reduce = 0 then next_used_length histNumBits ((reduce + 255) mod 256)
      else Inr reduce)"
  by pat_completeness auto
termination
proof (relation "measure (\<lambda>(histNumBits, reduce). if reduce < 64 then reduce + 1 else 0)",
       goal_cases)
  case 1
  show ?case
    by simp
next
  case (2 histNumBits reduce)
  have "(reduce + 255) mod 256 = (if reduce = 0 then 255 else reduce - 1)"
    using 2(1) by (cases reduce) (simp_all add: mod_Suc)
  with 2(1) show ?case
    by auto
qed

declare next_used_length.simps [simp del]

text \<open>
  The final loop of \<open>limitedImpl\<close> over the sorted symbols:
  \<^verbatim>\<open>codeLengths[unsorted] = reduce; histNumBits[reduce]--;
  while (histNumBits[reduce] == 0) reduce--;\<close>
\<close>

fun assign_lengths :: "KeyValue list \<Rightarrow> nat \<Rightarrow> u32 list \<Rightarrow> u8 list \<Rightarrow> fault + u8 list" where
  "assign_lengths [] reduce histNumBits codeLengths = Inr codeLengths"
| "assign_lengths (kv # mapping) reduce histNumBits codeLengths =
     (if reduce \<ge> 64 then Inl Out_Of_Bounds
      else let codeLengths1 = codeLengths[snd kv := of_nat reduce];
               h1 = histNumBits[reduce := histNumBits ! reduce - 1]
           in case next_used_length h1 reduce of
                Inl f \<Rightarrow> Inl f
              | Inr reduce1 \<Rightarrow> assign_lengths mapping reduce1 h1 codeLengths1)"

text \<open>
  The reducer is a parameter, as the function pointer \<^verbatim>\<open>LimitedInPlace\<close> is.  A call of
  \<open>limitedImpl\<close> returns \<open>None\<close> when it does not return, a fault, or the returned
  length with the buffer \<open>codeLengths\<close> as the call leaves it.
\<close>

type_synonym LimitedInPlace = "nat \<Rightarrow> nat \<Rightarrow> u32 list \<Rightarrow> (fault + nat \<times> u32 list) option"

definition limitedImpl ::
  "LimitedInPlace \<Rightarrow> nat \<Rightarrow> u32 list \<Rightarrow> u8 list \<Rightarrow> (fault + nat \<times> u8 list) option" where
  "limitedImpl algorithm maxLength histogram codeLengths =
     (let numCodes = length histogram in
      if maxLength = 0 \<or> maxLength > 63 \<or> numCodes = 0 then Some (Inr (0, codeLengths))
      else
        let numNonZero = length (filter (\<lambda>x. x \<noteq> 0) histogram) in
        if numNonZero = 0 then Some (Inr (0, codeLengths))
        else
          let codeLengths1 =
                (if numNonZero < numCodes then clear_lengths numCodes codeLengths
                 else codeLengths);
              mapping = qsort (used_symbols histogram);
              sorted0 = map fst mapping
          in case moffatSortedInPlace sorted0 of
               Inl f \<Rightarrow> Some (Inl f)
             | Inr (maxLengthUnlimited, sorted1) \<Rightarrow>
                 if maxLengthUnlimited \<le> maxLength
                 then Some (Inr (maxLengthUnlimited, restore_order mapping sorted1 codeLengths1))
                 else if maxLengthUnlimited > 63 then Some (Inr (0, codeLengths1))
                 else
                   (case for_each count_length sorted1 (replicate 64 0) of
                      Inl f \<Rightarrow> Some (Inl f)
                    | Inr histNumBits \<Rightarrow>
                        (case algorithm maxLength maxLengthUnlimited histNumBits of
                           None \<Rightarrow> None
                         | Some (Inl f) \<Rightarrow> Some (Inl f)
                         | Some (Inr (newMax, histNumBits1)) \<Rightarrow>
                             if newMax = 0 then Some (Inr (0, codeLengths1))
                             else
                               (case assign_lengths mapping newMax histNumBits1 codeLengths1 of
                                  Inl f \<Rightarrow> Some (Inl f)
                                | Inr codeLengths2 \<Rightarrow> Some (Inr (newMax, codeLengths2))))))"

definition limitedJpeg :: "nat \<Rightarrow> u32 list \<Rightarrow> u8 list \<Rightarrow> (fault + nat \<times> u8 list) option" where
  "limitedJpeg maxLength histogram codeLengths =
     limitedImpl (\<lambda>newMaxLength oldMaxLength histNumBits.
                    map_option Inr (limitedJpegInPlace newMaxLength oldMaxLength histNumBits))
       maxLength histogram codeLengths"

definition limitedMiniz :: "nat \<Rightarrow> u32 list \<Rightarrow> u8 list \<Rightarrow> (fault + nat \<times> u8 list) option" where
  "limitedMiniz maxLength histogram codeLengths =
     limitedImpl (\<lambda>newMaxLength oldMaxLength histNumBits.
                    Some (limitedMinizInPlace newMaxLength oldMaxLength histNumBits))
       maxLength histogram codeLengths"

section \<open>limitedbzip2.c\<close>

definition EXTRA_SHIFT :: nat where
  "EXTRA_SHIFT = 0"

definition DIVIDE_BY :: u32 where
  "DIVIDE_BY = 2"

text \<open>
  \<^verbatim>\<open>weight >>= EXTRA_SHIFT; weight = 1 + (weight / DIVIDE_BY); weight <<= EXTRA_SHIFT;\<close>
\<close>

definition bzip2_rescale :: "u32 \<Rightarrow> u32" where
  "bzip2_rescale weight = push_bit EXTRA_SHIFT (1 + drop_bit EXTRA_SHIFT weight div DIVIDE_BY)"

text \<open>
  \<^verbatim>\<open>while (result > maxLength)\<close>: the loop rescales the keys of \<open>mapping\<close>, copies them
  to \<open>sorted\<close> and runs \<open>moffatSortedInPlace\<close> again.  The state is the last result
  with the array it left and the mapping.
\<close>

partial_function (option) bzip2_loop ::
  "nat \<Rightarrow> (nat \<times> u32 list) \<times> KeyValue list \<Rightarrow> (fault + (nat \<times> u32 list) \<times> KeyValue list) option" where
  "bzip2_loop maxLength s =
     (if fst (fst s) > maxLength then
        (let mapping1 = map (\<lambda>kv. (bzip2_rescale (fst kv), snd kv)) (snd s)
         in case moffatSortedInPlace (map fst mapping1) of
              Inl f \<Rightarrow> Some (Inl f)
            | Inr r1 \<Rightarrow> bzip2_loop maxLength (r1, mapping1))
      else Some (Inr s))"

declare bzip2_loop.simps [code]

definition limitedBzip2 :: "nat \<Rightarrow> u32 list \<Rightarrow> u8 list \<Rightarrow> (fault + nat \<times> u8 list) option" where
  "limitedBzip2 maxLength histogram codeLengths =
     (let numCodes = length histogram;
          numNonZero = length (filter (\<lambda>x. x \<noteq> 0) histogram)
      in if numNonZero = 0 then Some (Inr (0, codeLengths))
         else
           let codeLengths1 =
                 (if numNonZero < numCodes then clear_lengths numCodes codeLengths
                  else codeLengths);
               mapping = qsort (used_symbols histogram);
               sorted0 = map fst mapping
           in case moffatSortedInPlace sorted0 of
                Inl f \<Rightarrow> Some (Inl f)
              | Inr r0 \<Rightarrow>
                  (case bzip2_loop maxLength (r0, mapping) of
                     None \<Rightarrow> None
                   | Some (Inl f) \<Rightarrow> Some (Inl f)
                   | Some (Inr ((result, sorted1), mapping1)) \<Rightarrow>
                       Some (Inr (result, restore_order mapping1 sorted1 codeLengths1))))"


section \<open>limitedkraft.c\<close>

text \<open>
  \<^verbatim>\<open>unsigned long long one = 1 << maxLength;\<close>  The literal \<open>1\<close> is an \<^verbatim>\<open>int\<close>: the shift
  is done in 32 signed bits and its result is then converted (sign-extended) to 64 bits.
\<close>

definition kraft_one :: "nat \<Rightarrow> fault + u64" where
  "kraft_one maxLength =
     (case shl_int 1 maxLength of Inl f \<Rightarrow> Inl f | Inr v \<Rightarrow> Inr (scast v))"

text \<open>
  The floating-point part of the two Kraft strategies (\<open>fastlog2\<close>, the entropy estimate and
  the comparisons with a threshold) is not modelled.  What the integer part of the code
  reads from it is taken as parameters:
  \<^item> \<open>rounded_entropy i\<close> is \<^verbatim>\<open>(unsigned char)(entropy + 0.5f)\<close> for symbol \<open>i\<close>;
  \<^item> \<open>over_threshold k i len\<close> is \<^verbatim>\<open>entropy - codeLengths[i] > threshold\<close> for symbol
    \<open>i\<close> with \<open>codeLengths[i] = len\<close> in pass \<open>k\<close> of the outer loop (the threshold
    is \<open>INITIAL_THRESHOLD\<close> lowered \<open>k\<close> times by \<open>STEP_THRESHOLD\<close>).
  Every statement below holds for all such parameters.

  \<^verbatim>\<open>if (rounded == 0) rounded = 1; if (rounded > maxLength) rounded = maxLength;\<close>
  and then the body of the first loop for symbol \<open>i\<close>; the state is
  \<open>(codeLengths, spent)\<close>.
\<close>

definition kraft_clamp :: "nat \<Rightarrow> nat \<Rightarrow> nat" where
  "kraft_clamp maxLength rounded0 =
     (let rounded1 = (if rounded0 = 0 then 1 else rounded0)
      in if rounded1 > maxLength then maxLength else rounded1)"

definition kraft_round ::
  "nat \<Rightarrow> u64 \<Rightarrow> (nat \<Rightarrow> nat) \<Rightarrow> u32 list \<Rightarrow> nat \<Rightarrow> u8 list \<times> u64 \<Rightarrow> fault + u8 list \<times> u64" where
  "kraft_round maxLength one rounded_entropy histogram i s =
     (case s of (codeLengths, spent) \<Rightarrow>
        if histogram ! i = 0 then Inr (codeLengths[i := 0], spent)
        else
          (case shr_u64 one (kraft_clamp maxLength (rounded_entropy i)) of
             Inl f \<Rightarrow> Inl f
           | Inr v \<Rightarrow>
               Inr (codeLengths[i := of_nat (kraft_clamp maxLength (rounded_entropy i))],
                    spent + v)))"

text \<open>
  One pass of the inner \<^verbatim>\<open>for\<close> loop of the expansion over the remaining symbols; the
  \<^verbatim>\<open>break\<close> ends the pass.
\<close>

fun kraft_extend_pass ::
  "nat \<Rightarrow> u64 \<Rightarrow> (nat \<Rightarrow> nat \<Rightarrow> bool) \<Rightarrow> nat list \<Rightarrow> u8 list \<times> u64 \<Rightarrow> fault + u8 list \<times> u64" where
  "kraft_extend_pass maxLength one over [] s = Inr s"
| "kraft_extend_pass maxLength one over (i # rest) s =
     (case s of (codeLengths, spent) \<Rightarrow>
        if codeLengths ! i = 0 \<or> unat (codeLengths ! i) \<ge> maxLength
        then kraft_extend_pass maxLength one over rest s
        else if over i (unat (codeLengths ! i)) then
          (let len = codeLengths ! i + 1 in
           case shr_u64 one (unat len) of
             Inl f \<Rightarrow> Inl f
           | Inr v \<Rightarrow>
               if spent - v \<le> one then Inr (codeLengths[i := len], spent - v)
               else kraft_extend_pass maxLength one over rest (codeLengths[i := len], spent - v))
        else kraft_extend_pass maxLength one over rest s)"

text \<open>\<^verbatim>\<open>for (threshold = INITIAL_THRESHOLD; spent > one; threshold -= STEP_THRESHOLD)\<close>\<close>

partial_function (option) kraft_extend ::
  "nat \<Rightarrow> u64 \<Rightarrow> (nat \<Rightarrow> nat \<Rightarrow> nat \<Rightarrow> bool) \<Rightarrow> nat \<Rightarrow> nat \<Rightarrow> u8 list \<times> u64 \<Rightarrow>
   (fault + u8 list \<times> u64) option" where
  "kraft_extend maxLength one over_threshold numCodes k s =
     (if snd s > one then
        (case kraft_extend_pass maxLength one (over_threshold k) [0..<numCodes] s of
           Inl f \<Rightarrow> Some (Inl f)
         | Inr s1 \<Rightarrow> kraft_extend maxLength one over_threshold numCodes (k + 1) s1)
      else Some (Inr s))"

declare kraft_extend.simps [code]

text \<open>The optional contraction, entered when \<open>spent < one\<close>.\<close>

fun kraft_shorten :: "u64 \<Rightarrow> nat list \<Rightarrow> u8 list \<times> u64 \<Rightarrow> fault + u8 list \<times> u64" where
  "kraft_shorten one [] s = Inr s"
| "kraft_shorten one (i # rest) s =
     (case s of (codeLengths, spent) \<Rightarrow>
        if codeLengths ! i \<le> 1 then kraft_shorten one rest s
        else
          (case shr_u64 one (unat (codeLengths ! i)) of
             Inl f \<Rightarrow> Inl f
           | Inr have_ \<Rightarrow>
               if one - spent \<ge> have_ then
                 (if one = spent + have_
                  then Inr (codeLengths[i := codeLengths ! i - 1], spent + have_)
                  else kraft_shorten one rest (codeLengths[i := codeLengths ! i - 1], spent + have_))
               else kraft_shorten one rest s))"

text \<open>The final scan for the longest code; the \<^verbatim>\<open>break\<close> ends it at \<open>maxLength\<close>.\<close>

fun kraft_longest :: "nat \<Rightarrow> u8 list \<Rightarrow> nat list \<Rightarrow> u8 \<Rightarrow> u8" where
  "kraft_longest maxLength codeLengths [] result = result"
| "kraft_longest maxLength codeLengths (i # rest) result =
     (if result < codeLengths ! i then
        (if unat (codeLengths ! i) = maxLength then codeLengths ! i
         else kraft_longest maxLength codeLengths rest (codeLengths ! i))
      else kraft_longest maxLength codeLengths rest result)"

text \<open>The function after \<open>one\<close> has its value.\<close>

definition limitedKraft_with ::
  "u64 \<Rightarrow> (nat \<Rightarrow> nat) \<Rightarrow> (nat \<Rightarrow> nat \<Rightarrow> nat \<Rightarrow> bool) \<Rightarrow> nat \<Rightarrow> u32 list \<Rightarrow> u8 list \<Rightarrow>
   (fault + nat \<times> u8 list) option" where
  "limitedKraft_with one rounded_entropy over_threshold maxLength histogram codeLengths =
     (let numCodes = length histogram in
      case for_each (kraft_round maxLength one rounded_entropy histogram) [0..<numCodes]
             (codeLengths, 0) of
        Inl f \<Rightarrow> Some (Inl f)
      | Inr s0 \<Rightarrow>
          (case kraft_extend maxLength one over_threshold numCodes 0 s0 of
             None \<Rightarrow> None
           | Some (Inl f) \<Rightarrow> Some (Inl f)
           | Some (Inr s1) \<Rightarrow>
               (case (if snd s1 < one then kraft_shorten one [0..<numCodes] s1 else Inr s1) of
                  Inl f \<Rightarrow> Some (Inl f)
                | Inr s2 \<Rightarrow>
                    Some (Inr (unat (kraft_longest maxLength (fst s2) [0..<numCodes] 0), fst s2)))))"

definition limitedKraft ::
  "(nat \<Rightarrow> nat) \<Rightarrow> (nat \<Rightarrow> nat \<Rightarrow> nat \<Rightarrow> bool) \<Rightarrow> nat \<Rightarrow> u32 list \<Rightarrow> u8 list \<Rightarrow>
   (fault + nat \<times> u8 list) option" where
  "limitedKraft rounded_entropy over_threshold maxLength histogram codeLengths =
     (case kraft_one maxLength of
        Inl f \<Rightarrow> Some (Inl f)
      | Inr one \<Rightarrow>
          limitedKraft_with one rounded_entropy over_threshold maxLength histogram codeLengths)"

section \<open>limitedkraftheap.c\<close>

subsection \<open>The max-heap\<close>

text \<open>
  \<^verbatim>\<open>typedef struct { Key* keys; Value* values; size_t size; } Heap;\<close>
  The two arrays are lists of the allocated length, \<open>hsize\<close> is the 64-bit \<open>size\<close>.
  The keys are \<^verbatim>\<open>float\<close>s in the source; here they are the elements of any linear order.
  Positions inside the heap are natural numbers: they stay below \<open>size\<close>.
\<close>

record 'k Heap =
  keys :: "'k list"
  vals :: "nat list"
  hsize :: u64

definition heap_isLess :: "('k::linorder) Heap \<Rightarrow> nat \<Rightarrow> nat \<Rightarrow> bool" where
  "heap_isLess heap posA posB \<longleftrightarrow> keys heap ! posA < keys heap ! posB"

definition heap_swap :: "'k Heap \<Rightarrow> nat \<Rightarrow> nat \<Rightarrow> 'k Heap" where
  "heap_swap heap posA posB =
     heap\<lparr>keys := (keys heap)[posA := keys heap ! posB, posB := keys heap ! posA],
          vals := (vals heap)[posA := vals heap ! posB, posB := vals heap ! posA]\<rparr>"

text \<open>
  \<^verbatim>\<open>while (current > 0 && heap_isLess(heap, parent, current))\<close> with
  \<open>parent = (current - 1) / 2\<close>.
\<close>

function heap_bubbleUp_from :: "('k::linorder) Heap \<Rightarrow> nat \<Rightarrow> 'k Heap" where
  "heap_bubbleUp_from heap current =
     (if current > 0 \<and> heap_isLess heap ((current - 1) div 2) current
      then heap_bubbleUp_from (heap_swap heap current ((current - 1) div 2)) ((current - 1) div 2)
      else heap)"
  by pat_completeness auto
termination
  by (relation "measure (\<lambda>(heap, current). current)") auto

declare heap_bubbleUp_from.simps [simp del]

definition heap_bubbleUp :: "('k::linorder) Heap \<Rightarrow> 'k Heap" where
  "heap_bubbleUp heap = heap_bubbleUp_from heap (unat (hsize heap))"

text \<open>The child that \<open>heap_sinkDown\<close> compares and swaps with: \<open>biggest\<close>.\<close>

definition heap_biggest :: "('k::linorder) Heap \<Rightarrow> nat \<Rightarrow> nat" where
  "heap_biggest heap current =
     (let leftPos = 2 * current + 1;
          biggest1 = (if leftPos < unat (hsize heap) \<and> heap_isLess heap current leftPos
                      then leftPos else current);
          rightPos = 2 * current + 2
      in if rightPos < unat (hsize heap) \<and> heap_isLess heap biggest1 rightPos
         then rightPos else biggest1)"

function heap_sinkDown :: "('k::linorder) Heap \<Rightarrow> nat \<Rightarrow> 'k Heap" where
  "heap_sinkDown heap current =
     (if heap_biggest heap current = current then heap
      else heap_sinkDown (heap_swap heap (heap_biggest heap current) current)
             (heap_biggest heap current))"
  by pat_completeness auto
termination
proof (relation "measure (\<lambda>(heap, current). unat (hsize heap) - current)", goal_cases)
  case 1
  show ?case
    by simp
next
  case (2 heap current)
  then have "current < heap_biggest heap current \<and> heap_biggest heap current < unat (hsize heap)"
    by (auto simp: heap_biggest_def Let_def split: if_splits)
  then have "unat (hsize heap) - heap_biggest heap current < unat (hsize heap) - current"
    by arith
  then show ?case
    by (simp add: heap_swap_def)
qed

declare heap_sinkDown.simps [simp del]

text \<open>
  \<open>heap_removeTop\<close>: \<^verbatim>\<open>heap->size--\<close> wraps on an empty heap; \<^verbatim>\<open>keys[heap->size]\<close> and
  \<^verbatim>\<open>values[heap->size]\<close> are read inside the arrays or not at all.
\<close>

definition heap_removeTop :: "('k::linorder) Heap \<Rightarrow> fault + 'k Heap" where
  "heap_removeTop heap =
     (let heap1 = heap\<lparr>hsize := hsize heap - 1\<rparr> in
      if hsize heap1 > 0 then
        (if unat (hsize heap1) < length (keys heap1) \<and> unat (hsize heap1) < length (vals heap1)
         then Inr (heap_sinkDown
                (heap1\<lparr>keys := (keys heap1)[0 := keys heap1 ! unat (hsize heap1)],
                       vals := (vals heap1)[0 := vals heap1 ! unat (hsize heap1)]\<rparr>) 0)
         else Inl Out_Of_Bounds)
      else Inr heap1)"

definition heap_insert :: "('k::linorder) Heap \<Rightarrow> 'k \<Rightarrow> nat \<Rightarrow> fault + 'k Heap" where
  "heap_insert heap key v =
     (if unat (hsize heap) < length (keys heap) \<and> unat (hsize heap) < length (vals heap)
      then
        (let heap1 = heap_bubbleUp
               (heap\<lparr>keys := (keys heap)[unat (hsize heap) := key],
                     vals := (vals heap)[unat (hsize heap) := v]\<rparr>)
         in Inr (heap1\<lparr>hsize := hsize heap1 + 1\<rparr>))
      else Inl Out_Of_Bounds)"

subsection \<open>limitedKraftHeap\<close>

text \<open>
  The floating-point part is again a parameter: \<open>rounded_entropy i\<close> as before,
  \<open>gain_of i rounded\<close> for \<^verbatim>\<open>entropy - rounded\<close> and \<open>decrement\<close> for \<^verbatim>\<open>gain--\<close>.
  The state of the loops is \<open>(heap, codeLengths, spent)\<close>.
\<close>

definition kraftheap_round ::
  "nat \<Rightarrow> u64 \<Rightarrow> (nat \<Rightarrow> nat) \<Rightarrow> (nat \<Rightarrow> nat \<Rightarrow> 'k) \<Rightarrow> u32 list \<Rightarrow> nat \<Rightarrow>
   ('k::linorder) Heap \<times> u8 list \<times> u64 \<Rightarrow> fault + 'k Heap \<times> u8 list \<times> u64" where
  "kraftheap_round maxLength one rounded_entropy gain_of histogram i s =
     (case s of (heap, codeLengths, spent) \<Rightarrow>
        if histogram ! i = 0 then Inr (heap, codeLengths[i := 0], spent)
        else
          (let rounded = kraft_clamp maxLength (rounded_entropy i) in
           (case shr_u64 one rounded of
              Inl f \<Rightarrow> Inl f
            | Inr v \<Rightarrow>
                if rounded < maxLength then
                  (case heap_insert heap (gain_of i rounded) i of
                     Inl f \<Rightarrow> Inl f
                   | Inr heap1 \<Rightarrow> Inr (heap1, codeLengths[i := of_nat rounded], spent + v))
                else Inr (heap, codeLengths[i := of_nat rounded], spent + v))))"

text \<open>
  \<^verbatim>\<open>while (spent > one)\<close>.  The reads of \<^verbatim>\<open>heap.keys[0]\<close> and \<^verbatim>\<open>heap.values[0]\<close> need an
  allocation of at least one element, the accesses to \<^verbatim>\<open>codeLengths[i]\<close> an index below
  \<open>numCodes\<close>.
\<close>

partial_function (option) kraftheap_extend ::
  "nat \<Rightarrow> u64 \<Rightarrow> ('k \<Rightarrow> 'k) \<Rightarrow> ('k::linorder) Heap \<times> u8 list \<times> u64 \<Rightarrow>
   (fault + 'k Heap \<times> u8 list \<times> u64) option" where
  "kraftheap_extend maxLength one decrement s =
     (if snd (snd s) > one then
        (if keys (fst s) = [] \<or> vals (fst s) = [] then Some (Inl Out_Of_Bounds)
         else
           (case heap_removeTop (fst s) of
              Inl f \<Rightarrow> Some (Inl f)
            | Inr heap1 \<Rightarrow>
                if vals (fst s) ! 0 \<ge> length (fst (snd s)) then Some (Inl Out_Of_Bounds)
                else if fst (snd s) ! (vals (fst s) ! 0) = 0
                        \<or> unat (fst (snd s) ! (vals (fst s) ! 0)) \<ge> maxLength
                then kraftheap_extend maxLength one decrement (heap1, snd s)
                else
                  (case shr_u64 one (unat (fst (snd s) ! (vals (fst s) ! 0) + 1)) of
                     Inl f \<Rightarrow> Some (Inl f)
                   | Inr v \<Rightarrow>
                       if snd (snd s) - v \<le> one
                       then Some (Inr (heap1,
                              (fst (snd s))[vals (fst s) ! 0 := fst (snd s) ! (vals (fst s) ! 0) + 1],
                              snd (snd s) - v))
                       else
                         (case heap_insert heap1 (decrement (keys (fst s) ! 0)) (vals (fst s) ! 0) of
                            Inl f \<Rightarrow> Some (Inl f)
                          | Inr heap2 \<Rightarrow>
                              kraftheap_extend maxLength one decrement
                                (heap2,
                                 (fst (snd s))[vals (fst s) ! 0 := fst (snd s) ! (vals (fst s) ! 0) + 1],
                                 snd (snd s) - v)))))
      else Some (Inr s))"

declare kraftheap_extend.simps [code]

text \<open>\<^verbatim>\<open>while (spent < one && heap.size > 0)\<close>\<close>

partial_function (option) kraftheap_shorten ::
  "u64 \<Rightarrow> ('k::linorder) Heap \<times> u8 list \<times> u64 \<Rightarrow> (fault + 'k Heap \<times> u8 list \<times> u64) option" where
  "kraftheap_shorten one s =
     (if snd (snd s) < one \<and> hsize (fst s) > 0 then
        (if vals (fst s) = [] then Some (Inl Out_Of_Bounds)
         else
           (case heap_removeTop (fst s) of
              Inl f \<Rightarrow> Some (Inl f)
            | Inr heap1 \<Rightarrow>
                if vals (fst s) ! 0 \<ge> length (fst (snd s)) then Some (Inl Out_Of_Bounds)
                else
                  (case shr_u64 one (unat (fst (snd s) ! (vals (fst s) ! 0))) of
                     Inl f \<Rightarrow> Some (Inl f)
                   | Inr have_ \<Rightarrow>
                       if one - snd (snd s) \<ge> have_
                       then kraftheap_shorten one
                              (heap1,
                               (fst (snd s))[vals (fst s) ! 0 := fst (snd s) ! (vals (fst s) ! 0) - 1],
                               snd (snd s) + have_)
                       else kraftheap_shorten one (heap1, snd s))))
      else Some (Inr s))"

declare kraftheap_shorten.simps [code]

text \<open>
  \<open>keys0\<close> and \<open>vals0\<close> are the two freshly allocated arrays of \<open>numCodes\<close> elements
  each, with whatever they hold.
\<close>

definition limitedKraftHeap_with ::
  "u64 \<Rightarrow> (nat \<Rightarrow> nat) \<Rightarrow> (nat \<Rightarrow> nat \<Rightarrow> 'k) \<Rightarrow> ('k \<Rightarrow> 'k) \<Rightarrow> ('k::linorder) list \<Rightarrow> nat list \<Rightarrow>
   nat \<Rightarrow> u32 list \<Rightarrow> u8 list \<Rightarrow> (fault + nat \<times> u8 list) option" where
  "limitedKraftHeap_with one rounded_entropy gain_of decrement keys0 vals0
     maxLength histogram codeLengths =
     (let numCodes = length histogram in
      case for_each (kraftheap_round maxLength one rounded_entropy gain_of histogram) [0..<numCodes]
             (\<lparr>keys = keys0, vals = vals0, hsize = 0\<rparr>, codeLengths, 0) of
        Inl f \<Rightarrow> Some (Inl f)
      | Inr s0 \<Rightarrow>
          (case kraftheap_extend maxLength one decrement s0 of
             None \<Rightarrow> None
           | Some (Inl f) \<Rightarrow> Some (Inl f)
           | Some (Inr s1) \<Rightarrow>
               (case kraftheap_shorten one s1 of
                  None \<Rightarrow> None
                | Some (Inl f) \<Rightarrow> Some (Inl f)
                | Some (Inr s2) \<Rightarrow>
                    Some (Inr (unat (kraft_longest maxLength (fst (snd s2)) [0..<numCodes] 0),
                               fst (snd s2))))))"

definition limitedKraftHeap ::
  "(nat \<Rightarrow> nat) \<Rightarrow> (nat \<Rightarrow> nat \<Rightarrow> 'k) \<Rightarrow> ('k \<Rightarrow> 'k) \<Rightarrow> ('k::linorder) list \<Rightarrow> nat list \<Rightarrow>
   nat \<Rightarrow> u32 list \<Rightarrow> u8 list \<Rightarrow> (fault + nat \<times> u8 list) option" where
  "limitedKraftHeap rounded_entropy gain_of decrement keys0 vals0 maxLength histogram codeLengths =
     (case kraft_one maxLength of
        Inl f \<Rightarrow> Some (Inl f)
      | Inr one \<Rightarrow>
          limitedKraftHeap_with one rounded_entropy gain_of decrement keys0 vals0
            maxLength histogram codeLengths)"

section \<open>The properties of the specification\<close>

text \<open>
  The Kraft sum of a code-length vector at scale \<open>maxBits\<close>, as the fuzzer computes it:
  \<^verbatim>\<open>if (codeLengths[i] > 0) sum += one >> codeLengths[i]\<close>, over the natural numbers.
\<close>

definition code_kraft_sum :: "nat \<Rightarrow> u8 list \<Rightarrow> nat" where
  "code_kraft_sum maxBits codeLengths =
     sum_list (map (\<lambda>len. 2 ^ (maxBits - unat len)) (filter (\<lambda>len. len \<noteq> 0) codeLengths))"

text \<open>
  A length histogram \<open>bits\<close> counts the symbols of each code length \<open>1..L\<close>.  Its sums with
  a weight per length: the Kraft sum at scale \<open>L\<close> (weight \<open>2\<^bsup>L - l\<^esup>\<close>, so that Kraft
  \<open>\<le> 1\<close> reads \<open>hist_kraft_sum L bits \<le> 2\<^bsup>L\<^esup>\<close>) and the number of symbols (weight 1).
\<close>

definition hist_weighted :: "(nat \<Rightarrow> nat) \<Rightarrow> nat \<Rightarrow> u32 list \<Rightarrow> nat" where
  "hist_weighted w L bits = (\<Sum>l = 1..L. unat (bits ! l) * w l)"

definition hist_kraft_sum :: "nat \<Rightarrow> u32 list \<Rightarrow> nat" where
  "hist_kraft_sum L bits = (\<Sum>l = 1..L. unat (bits ! l) * 2 ^ (L - l))"

definition hist_symbols :: "nat \<Rightarrow> u32 list \<Rightarrow> nat" where
  "hist_symbols L bits = (\<Sum>l = 1..L. unat (bits ! l))"

text \<open>No symbol has a length in \<open>i+1..L\<close>; and \<open>r\<close> is the longest length in use.\<close>

definition no_longer_than :: "nat \<Rightarrow> nat \<Rightarrow> u32 list \<Rightarrow> bool" where
  "no_longer_than i L bits \<longleftrightarrow> (\<forall>l. i < l \<and> l \<le> L \<longrightarrow> bits ! l = 0)"

definition longest_used :: "nat \<Rightarrow> u32 list \<Rightarrow> nat \<Rightarrow> bool" where
  "longest_used L bits r \<longleftrightarrow> 1 \<le> r \<and> r \<le> L \<and> bits ! r \<noteq> 0 \<and> no_longer_than r L bits"

subsection \<open>The tree of moffatSortedInPlace\<close>

text \<open>
  After the combine phase the first entries of the array are parent links: entry \<open>j\<close> is the
  index of a later internal node below \<open>bound\<close>, the links ascend, and no three nodes share
  a parent.  \<open>combine_inv\<close> holds before the step \<open>next = k\<close> of the phase, \<open>combine_mid\<close>
  between its two halves.
\<close>

definition links_ok :: "nat \<Rightarrow> nat \<Rightarrow> u32 list \<Rightarrow> bool" where
  "links_ok root bound A \<longleftrightarrow>
     (\<forall>j<root. j < unat (A ! j) \<and> unat (A ! j) < bound) \<and>
     (\<forall>j. Suc j < root \<longrightarrow> unat (A ! j) \<le> unat (A ! Suc j)) \<and>
     (\<forall>j. j + 2 < root \<longrightarrow> unat (A ! j) < unat (A ! (j + 2)))"

definition combine_inv :: "nat \<Rightarrow> nat \<Rightarrow> nat \<times> nat \<times> u32 list \<Rightarrow> bool" where
  "combine_inv M k s \<longleftrightarrow>
     (case s of (leaf, root, A) \<Rightarrow>
        length A = M \<and> leaf + root = 2 * k \<and> leaf \<le> M \<and> root \<le> k \<and> links_ok root k A)"

definition combine_mid :: "nat \<Rightarrow> nat \<Rightarrow> nat \<times> nat \<times> u32 list \<Rightarrow> bool" where
  "combine_mid M k s \<longleftrightarrow>
     (case s of (leaf, root, A) \<Rightarrow>
        length A = M \<and> leaf + root = 2 * k + 1 \<and> leaf \<le> M \<and> root \<le> k \<and>
        links_ok root (Suc k) A \<and> (\<forall>j. Suc j < root \<longrightarrow> unat (A ! j) < k))"

text \<open>
  The depth phase, before it handles index \<open>k - 1\<close>: the links below \<open>k\<close> are still there,
  from \<open>k\<close> on every node is one level below its parent.  \<open>n\<close> is the index of the root,
  \<open>numCodes - 2\<close>.
\<close>

definition depth_inv :: "nat \<Rightarrow> u32 list \<Rightarrow> nat \<Rightarrow> u32 list \<Rightarrow> bool" where
  "depth_inv n A1 k A \<longleftrightarrow>
     length A = n + 2 \<and> (\<forall>j<k. A ! j = A1 ! j) \<and> A ! n = 0 \<and>
     (\<forall>j. k \<le> j \<and> j < n \<longrightarrow> unat (A ! j) = unat (A ! unat (A1 ! j)) + 1) \<and>
     (\<forall>j. k \<le> j \<and> j \<le> n \<longrightarrow> unat (A ! j) + j \<le> n)"

text \<open>The tree after the depth phase, \<open>P\<close> the parent and \<open>D\<close> the depth of an internal node.\<close>

definition tree_ok :: "nat \<Rightarrow> (nat \<Rightarrow> nat) \<Rightarrow> (nat \<Rightarrow> nat) \<Rightarrow> bool" where
  "tree_ok n P D \<longleftrightarrow>
     D n = 0 \<and> (\<forall>j<n. j < P j \<and> P j \<le> n \<and> D j = D (P j) + 1) \<and>
     (\<forall>j. Suc j < n \<longrightarrow> P j \<le> P (Suc j)) \<and>
     (\<forall>j. j + 2 < n \<longrightarrow> P j < P (j + 2))"

text \<open>
  The weights of the combine phase.  \<open>s a\<close> is the weight of the \<open>a\<close>-th item the phase takes
  (a leaf or an internal node), so that the internal node \<open>q\<close> weighs \<open>s (2q) + s (2q + 1)\<close>.
  \<open>weight_inv\<close> holds after \<open>t\<close> items are taken, \<open>w\<close> the weights of the leaves and
  \<open>tot\<close> their sum: the items are taken in ascending order of weight, the leaves from
  \<open>leaf\<close> and the nodes from \<open>root\<close> are still to be taken and weigh at least as much as
  every item taken, a node taken is linked to the node it went into, and the weights left
  add up to \<open>tot\<close>.
\<close>

definition node_weight :: "(nat \<Rightarrow> nat) \<Rightarrow> nat \<Rightarrow> nat" where
  "node_weight s q = s (2 * q) + s (2 * q + 1)"

definition weight_inv ::
  "(nat \<Rightarrow> nat) \<Rightarrow> nat \<Rightarrow> nat \<Rightarrow> nat \<Rightarrow> (nat \<Rightarrow> nat) \<Rightarrow> nat \<times> nat \<times> u32 list \<Rightarrow> bool" where
  "weight_inv w tot M t s st \<longleftrightarrow>
     (case st of (leaf, root, A) \<Rightarrow>
        (\<forall>a b. a \<le> b \<and> b < t \<longrightarrow> s a \<le> s b) \<and>
        (\<forall>a<t. 1 \<le> s a) \<and>
        (\<forall>i. leaf \<le> i \<and> i < M \<longrightarrow> unat (A ! i) = w i) \<and>
        (\<forall>q. root \<le> q \<and> q < t div 2 \<longrightarrow> unat (A ! q) = node_weight s q) \<and>
        (odd t \<longrightarrow> unat (A ! (t div 2)) = s (t - 1)) \<and>
        (\<forall>j<root. \<exists>a<t. a div 2 = unat (A ! j) \<and> s a = node_weight s j) \<and>
        (\<forall>a<t. (\<forall>i. leaf \<le> i \<and> i < M \<longrightarrow> s a \<le> w i) \<and>
                (\<forall>q. root \<le> q \<and> q < t div 2 \<longrightarrow> s a \<le> node_weight s q)) \<and>
        sum w {leaf..<M} + sum (node_weight s) {root..<t div 2}
          + (if odd t then s (t - 1) else 0) = tot)"

text \<open>The depth of the deepest internal node, as the depth phase stores it in \<^verbatim>\<open>A[0]\<close>.\<close>

definition moffat_deepest_node :: "u32 list \<Rightarrow> nat option" where
  "moffat_deepest_node A =
     (case moffat_phase1 (length A) A of
        Inl f \<Rightarrow> None
      | Inr A1 \<Rightarrow> (case moffat_phase2 (length A) A1 of Inl f \<Rightarrow> None | Inr A2 \<Rightarrow> Some (unat (A2 ! 0))))"

text \<open>An array in descending (non-increasing) order; its first element is its maximum.\<close>

definition descending :: "u32 list \<Rightarrow> bool" where
  "descending A \<longleftrightarrow> (\<forall>i i'. i \<le> i' \<and> i' < length A \<longrightarrow> A ! i' \<le> A ! i)"

section \<open>Literal scenarios\<close>

text \<open>
  C8 (scenarios S4 and S5).  On \<open>bits = {0,1,1,1,1,2}\<close> with \<open>oldL = 5\<close>,
  \<open>limitedJpegInPlace\<close> with \<open>newL = 4\<close> leaves \<open>{0,1,1,0,4,0}\<close> and returns 4, and
  with \<open>newL = 3\<close> it leaves \<open>{0,0,2,4,0,0}\<close> and returns 3.
\<close>

theorem jpeg_scenarios_S4_S5:
  "limitedJpegInPlace 4 5 [0, 1, 1, 1, 1, 2] = Some (4, [0, 1, 1, 0, 4, 0]) \<and>
   limitedJpegInPlace 3 5 [0, 1, 1, 1, 1, 2] = Some (3, [0, 0, 2, 4, 0, 0])"
  by code_simp

section \<open>Facts about single steps\<close>

lemma scast_pow: "n < 31 \<Longrightarrow> (scast (2 ^ n :: 32 word) :: u64) = 2 ^ n"
  by (rule bit_word_eqI) (auto simp: bit_signed_iff bit_exp_iff min_def)

lemma kraft_one_defined: "n < 31 \<Longrightarrow> kraft_one n = Inr (2 ^ n)"
proof -
  assume n: "n < 31"
  have "(2::int) ^ n < 2147483648"
    using power_strict_increasing [of n 31 "2::int"] n by simp
  then have "shl_int 1 n = Inr (push_bit n 1)"
    using n by (simp add: shl_int_def)
  with n show ?thesis
    by (simp add: kraft_one_def scast_pow)
qed

lemma kraft_one_undefined: "\<not> n < 31 \<Longrightarrow> kraft_one n = Inl Undefined_Shift"
proof -
  assume "\<not> n < 31"
  then have "\<not> ((2::int) ^ n < 2 ^ 31)"
    using power_increasing [of 31 n "2::int"] by simp
  then have "shl_int 1 n = Inl Undefined_Shift"
    by (simp add: shl_int_def)
  then show ?thesis
    by (simp add: kraft_one_def)
qed

lemma kraft_clamp_1: "kraft_clamp 1 r = 1"
  by (simp add: kraft_clamp_def Let_def)

lemma moffat_111: "moffatSortedInPlace [1, 1, 1] = Inr (2, [2, 2, 1])"
  by code_simp

lemma no_used_symbols:
  "list_all (\<lambda>f. f = 0) histogram \<Longrightarrow> filter (\<lambda>x. x \<noteq> 0) histogram = []"
  by (induction histogram) auto

lemma all_zero_nth:
  "list_all (\<lambda>f. f = 0) histogram \<Longrightarrow> \<forall>i \<in> set [0..<length histogram]. histogram ! i = 0"
  by (simp add: list_all_length)

lemma clear_lengths_replicate:
  "clear_lengths (length codeLengths) codeLengths = replicate (length codeLengths) 0"
proof -
  have "fold (\<lambda>i cl. cl[i := 0]) [0..<n] cl = replicate n 0 @ drop n cl" if "n \<le> length cl"
    for n and cl :: "u8 list"
    using that
  proof (induction n)
    case 0
    then show ?case by simp
  next
    case (Suc n)
    then have "(replicate n 0 @ drop n cl)[n := 0] = replicate (Suc n) 0 @ drop (Suc n) cl"
      by (simp add: list_update_append replicate_append_same upd_conv_take_nth_drop
          flip: Cons_nth_drop_Suc)
    with Suc show ?case
      by simp
  qed
  from this [of "length codeLengths" codeLengths] show ?thesis
    by (simp add: clear_lengths_def)
qed

section \<open>Rejected and empty inputs\<close>

lemma limitedImpl_rejects:
  "maxLength = 0 \<or> 63 < maxLength \<or> list_all (\<lambda>f. f = 0) histogram \<Longrightarrow>
   limitedImpl algorithm maxLength histogram codeLengths = Some (Inr (0, codeLengths))"
  by (auto simp: limitedImpl_def Let_def no_used_symbols)

lemma limitedBzip2_rejects:
  "list_all (\<lambda>f. f = 0) histogram \<Longrightarrow>
   limitedBzip2 maxLength histogram codeLengths = Some (Inr (0, codeLengths))"
  by (simp add: limitedBzip2_def Let_def no_used_symbols)

lemma kraft_round_unused:
  "\<forall>i \<in> set idxs. histogram ! i = 0 \<Longrightarrow>
   for_each (kraft_round maxLength one r histogram) idxs (cl, spent)
     = Inr (fold (\<lambda>i cl. cl[i := 0]) idxs cl, spent)"
  by (induction idxs arbitrary: cl) (simp_all add: kraft_round_def)

lemma kraftheap_round_unused:
  "\<forall>i \<in> set idxs. histogram ! i = 0 \<Longrightarrow>
   for_each (kraftheap_round maxLength one r g histogram) idxs (heap, cl, spent)
     = Inr (heap, fold (\<lambda>i cl. cl[i := 0]) idxs cl, spent)"
  by (induction idxs arbitrary: cl) (simp_all add: kraftheap_round_def)

lemma kraft_shorten_zeros:
  "\<forall>i \<in> set idxs. i < n \<Longrightarrow>
   kraft_shorten one idxs (replicate n 0, spent) = Inr (replicate n 0, spent)"
  by (induction idxs) simp_all

lemma kraft_longest_zeros:
  "\<forall>i \<in> set idxs. i < n \<Longrightarrow> kraft_longest maxLength (replicate n 0) idxs 0 = 0"
  by (induction idxs) simp_all

lemma limitedKraft_with_unused:
  assumes "list_all (\<lambda>f. f = 0) histogram" and "length codeLengths = length histogram"
  shows "limitedKraft_with one r t maxLength histogram codeLengths
           = Some (Inr (0, replicate (length histogram) 0))"
proof -
  have start: "for_each (kraft_round maxLength one r histogram) [0..<length histogram]
                 (codeLengths, 0) = Inr (replicate (length histogram) 0, 0)"
    using kraft_round_unused [OF all_zero_nth [OF assms(1)]]
      clear_lengths_replicate [of codeLengths] assms(2)
    by (simp add: clear_lengths_def)
  have ext: "kraft_extend maxLength one t (length histogram) 0 (replicate (length histogram) 0, 0)
               = Some (Inr (replicate (length histogram) 0, 0))"
    by (subst kraft_extend.simps) simp
  show ?thesis
    by (simp add: limitedKraft_with_def Let_def start ext kraft_shorten_zeros kraft_longest_zeros)
qed

lemma limitedKraftHeap_with_unused:
  assumes "list_all (\<lambda>f. f = 0) histogram" and "length codeLengths = length histogram"
  shows "limitedKraftHeap_with one r g d keys0 vals0 maxLength histogram codeLengths
           = Some (Inr (0, replicate (length histogram) 0))"
proof -
  let ?h = "\<lparr>keys = keys0, vals = vals0, hsize = 0\<rparr>"
  let ?z = "replicate (length histogram) (0 :: u8)"
  have start: "for_each (kraftheap_round maxLength one r g histogram) [0..<length histogram]
                 (?h, codeLengths, 0) = Inr (?h, ?z, 0)"
    using kraftheap_round_unused [OF all_zero_nth [OF assms(1)], of maxLength one r g ?h codeLengths 0]
      clear_lengths_replicate [of codeLengths] assms(2)
    by (simp add: clear_lengths_def)
  have ext: "kraftheap_extend maxLength one d (?h, ?z, 0) = Some (Inr (?h, ?z, 0))"
    by (subst kraftheap_extend.simps) simp
  have sh: "kraftheap_shorten one (?h, ?z, 0) = Some (Inr (?h, ?z, 0))"
    by (subst kraftheap_shorten.simps) simp
  show ?thesis
    by (simp add: limitedKraftHeap_with_def Let_def start ext sh kraft_longest_zeros)
qed

text \<open>
  C2, the claim as stated: every one of \<open>limitedJpeg\<close>, \<open>limitedMiniz\<close>,
  \<open>limitedBzip2\<close>, \<open>limitedKraft\<close>, \<open>limitedKraftHeap\<close> returns 0 when \<open>L > 63\<close>.
  \<open>limitedBzip2\<close> has no check of \<open>maxLength\<close>: with \<open>L = 64\<close>, one symbol of frequency
  7 and a zeroed buffer it returns 1 and writes the length 1.
\<close>

theorem limitedBzip2_accepts_L_above_63:
  "limitedBzip2 64 [7] [0] = Some (Inr (1, [1])) \<and>
   limitedBzip2 64 [7] [0] \<noteq> Some (Inr (0, [0]))"
  by code_simp

text \<open>
  C2, amended.  When \<open>N = 0\<close> or all frequencies are zero, all five entry points return 0:
  \<open>limitedJpeg\<close>, \<open>limitedMiniz\<close> and \<open>limitedBzip2\<close> leave the buffer untouched,
  \<open>limitedKraft\<close> and \<open>limitedKraftHeap\<close> (whatever the value of \<open>one\<close>, and through
  the entry point itself for \<open>L < 31\<close>) leave the buffer of \<open>N\<close> elements fully zeroed.
  \<open>limitedJpeg\<close> and \<open>limitedMiniz\<close> also return 0 with the buffer untouched when
  \<open>L = 0\<close> or \<open>L > 63\<close>.  Nothing is said about \<open>limitedBzip2\<close>, \<open>limitedKraft\<close> and
  \<open>limitedKraftHeap\<close> with used symbols and \<open>L = 0\<close> or \<open>L > 63\<close>.
\<close>

theorem rejected_inputs_return_zero:
  "(L = 0 \<or> 63 < L \<or> list_all (\<lambda>f. f = 0) histogram \<longrightarrow>
      limitedJpeg L histogram codeLengths = Some (Inr (0, codeLengths)) \<and>
      limitedMiniz L histogram codeLengths = Some (Inr (0, codeLengths))) \<and>
   (list_all (\<lambda>f. f = 0) histogram \<longrightarrow>
      limitedBzip2 L histogram codeLengths = Some (Inr (0, codeLengths))) \<and>
   (list_all (\<lambda>f. f = 0) histogram \<and> length codeLengths = length histogram \<longrightarrow>
      limitedKraft_with one r t L histogram codeLengths
        = Some (Inr (0, replicate (length histogram) 0)) \<and>
      limitedKraftHeap_with one r g d keys0 vals0 L histogram codeLengths
        = Some (Inr (0, replicate (length histogram) 0))) \<and>
   (list_all (\<lambda>f. f = 0) histogram \<and> length codeLengths = length histogram \<and> L < 31 \<longrightarrow>
      limitedKraft r t L histogram codeLengths
        = Some (Inr (0, replicate (length histogram) 0)) \<and>
      limitedKraftHeap r g d keys0 vals0 L histogram codeLengths
        = Some (Inr (0, replicate (length histogram) 0)))"
  by (simp add: limitedJpeg_def limitedMiniz_def limitedImpl_rejects limitedBzip2_rejects
      limitedKraft_with_unused limitedKraftHeap_with_unused limitedKraft_def limitedKraftHeap_def
      kraft_one_defined)

theorem rejected_inputs_return_zero_witness:
  "limitedJpeg 0 [3, 1] [7, 8] = Some (Inr (0, [7, 8])) \<and>
   limitedMiniz 64 [3, 1] [7, 8] = Some (Inr (0, [7, 8])) \<and>
   limitedJpeg 5 [] [] = Some (Inr (0, [])) \<and>
   limitedBzip2 5 [0, 0, 0] [7, 8, 9] = Some (Inr (0, [7, 8, 9])) \<and>
   limitedKraft (\<lambda>i. 2) (\<lambda>k i len. True) 5 [0, 0, 0] [7, 8, 9] = Some (Inr (0, [0, 0, 0])) \<and>
   limitedKraftHeap (\<lambda>i. 2) (\<lambda>i rounded. - int rounded) (\<lambda>gain. gain - 1) [0, 0, 0] [0, 0, 0]
     5 [0, 0, 0] [7, 8, 9] = Some (Inr (0, [0, 0, 0]))"
proof -
  note inst = rejected_inputs_return_zero
    [where one = 32 and r = "\<lambda>i. 2" and t = "\<lambda>k i len. True"
       and g = "\<lambda>i rounded. - int rounded" and d = "\<lambda>gain. gain - 1"
       and ?keys0.0 = "[0, 0, 0]" and ?vals0.0 = "[0, 0, 0]"]
  show ?thesis
    using inst [of 0 "[3, 1]" "[7, 8]"] inst [of 64 "[3, 1]" "[7, 8]"] inst [of 5 "[]" "[]"]
      inst [of 5 "[0, 0, 0]" "[7, 8, 9]"]
    by (simp add: numeral_3_eq_3)
qed

section \<open>Inputs for which no code of the requested length exists\<close>

text \<open>
  C1.  Five symbols of frequency 1 and \<open>L = 2\<close> satisfy the parameter contracts, but
  \<open>2\<^sup>2 < 5\<close>.  \<open>limitedJpeg\<close> returns 2 with the lengths 2, 2, 2, 2, 1; their Kraft sum
  at scale \<open>2\<^sup>2\<close> is 6, above 4.
\<close>

theorem limitedJpeg_infeasible_breaks_kraft:
  "limitedJpeg 2 [1, 1, 1, 1, 1] [c0, c1, c2, c3, c4] = Some (Inr (2, [2, 2, 2, 2, 1])) \<and>
   code_kraft_sum 2 [2, 2, 2, 2, 1] = 6 \<and> (2::nat) ^ 2 < 6"
  by code_simp

text \<open>The state in which the linear Kraft strategy and the bzip2 loop stay forever.\<close>

lemma kraft_start_111:
  "for_each (kraft_round 1 2 r [1, 1, 1]) [0..<3] ([c0, c1, c2], 0) = Inr ([1, 1, 1], 3)"
  using kraft_clamp_1 by (simp add: upt_rec kraft_round_def shr_u64_def)

lemma kraft_pass_stuck:
  "kraft_extend_pass 1 2 t [0..<3] ([1, 1, 1], 3) = Inr ([1, 1, 1], 3)"
  by code_simp

lemma kraft_extend_diverges:
  "kraft_extend 1 2 t 3 k ([1, 1, 1], 3) = None"
proof (rule ccontr)
  assume "kraft_extend 1 2 t 3 k ([1, 1, 1], 3) \<noteq> None"
  then obtain y where "kraft_extend 1 2 t 3 k ([1, 1, 1], 3) = Some y"
    by auto
  then have "\<not> ((1::nat) = 1 \<and> (2::u64) = 2 \<and> (3::nat) = 3
                 \<and> ([1, 1, 1], 3) = ([1, 1, 1 :: u8], 3 :: u64))"
  proof (rule kraft_extend.raw_induct
      [where P = "\<lambda>maxLength one t numCodes k s y.
                    \<not> (maxLength = 1 \<and> one = 2 \<and> numCodes = 3 \<and> s = ([1, 1, 1], 3))", rotated],
      goal_cases)
    case (1 f maxLength one over_threshold numCodes k s y)
    have False if stuck: "maxLength = 1 \<and> one = 2 \<and> numCodes = 3 \<and> s = ([1, 1, 1], 3)"
    proof -
      from stuck 1(2) kraft_pass_stuck [of "over_threshold k"]
      have "f 1 2 over_threshold 3 (k + 1) ([1, 1, 1], 3) = Some y"
        by simp
      from 1(1) [OF this] show False
        by simp
    qed
    then show ?case
      by auto
  qed
  then show False
    by simp
qed

lemma bzip2_loop_diverges:
  "bzip2_loop 1 ((2, [2, 2, 1]), [(1, 0), (1, 1), (1, 2)]) = None"
proof (rule ccontr)
  assume "bzip2_loop 1 ((2, [2, 2, 1]), [(1, 0), (1, 1), (1, 2)]) \<noteq> None"
  then obtain y where "bzip2_loop 1 ((2, [2, 2, 1]), [(1, 0), (1, 1), (1, 2)]) = Some y"
    by auto
  then have "\<not> ((1::nat) = 1 \<and> ((2, [2, 2, 1]), [(1, 0), (1, 1), (1, 2)])
                   = ((2 :: nat, [2, 2, 1 :: u32]), [(1 :: u32, 0 :: nat), (1, 1), (1, 2)]))"
  proof (rule bzip2_loop.raw_induct
      [where P = "\<lambda>maxLength s y.
                    \<not> (maxLength = 1 \<and> s = ((2, [2, 2, 1]), [(1, 0), (1, 1), (1, 2)]))", rotated],
      goal_cases)
    case (1 f maxLength s y)
    have False if stuck: "maxLength = 1 \<and> s = ((2, [2, 2, 1]), [(1, 0), (1, 1), (1, 2)])"
    proof -
      have "bzip2_rescale 1 = 1"
        by (simp add: bzip2_rescale_def EXTRA_SHIFT_def DIVIDE_BY_def)
      with stuck 1(2) moffat_111
      have "f 1 ((2, [2, 2, 1]), [(1, 0), (1, 1), (1, 2)]) = Some y"
        by simp
      from 1(1) [OF this] show False
        by simp
    qed
    then show ?case
      by auto
  qed
  then show False
    by simp
qed

text \<open>
  C4.  Three symbols of frequency 1 and \<open>L = 1\<close> satisfy the parameter contracts, and
  \<open>2\<^sup>1 < 3\<close>.  Neither \<open>limitedKraft\<close> (for any floating-point estimate) nor
  \<open>limitedBzip2\<close> returns: all lengths are already 1 and \<open>spent = 3 > one = 2\<close> in every
  pass of the threshold loop; the weights 1, 1, 1 rescale to themselves and Moffat's
  algorithm gives the maximum length 2 again and again.
\<close>

theorem limitedKraft_limitedBzip2_do_not_return:
  "limitedKraft r t 1 [1, 1, 1] [c0, c1, c2] = None \<and>
   limitedBzip2 1 [1, 1, 1] [c0, c1, c2] = None"
proof
  have "kraft_one 1 = Inr 2"
    using kraft_one_defined [of 1] by simp
  moreover have "length [1, 1, 1 :: u32] = 3"
    by simp
  ultimately show "limitedKraft r t 1 [1, 1, 1] [c0, c1, c2] = None"
    by (simp only: limitedKraft_def limitedKraft_with_def Let_def sum.case option.case
        kraft_start_111 kraft_extend_diverges)
next
  have "qsort (used_symbols [1, 1, 1]) = [(1, 0), (1, 1), (1, 2)]"
    by code_simp
  then show "limitedBzip2 1 [1, 1, 1] [c0, c1, c2] = None"
    using moffat_111 bzip2_loop_diverges by (simp add: limitedBzip2_def)
qed

text \<open>
  C9.  On the same input \<open>limitedKraftHeap\<close> inserts nothing into its heap (every rounded
  length is already \<open>maxLength\<close>) and then enters \<^verbatim>\<open>while (spent > one)\<close>:
  \<open>heap_removeTop\<close> on the empty heap lets \<open>size\<close> wrap to \<open>2\<^sup>6\<^sup>4 - 1\<close>, far above
  \<open>numCodes = 3\<close>, and reads \<^verbatim>\<open>keys[size]\<close> outside the three allocated elements.
\<close>

theorem limitedKraftHeap_removes_from_empty_heap:
  "for_each (kraftheap_round 1 2 r g [1, 1, 1]) [0..<3]
     (\<lparr>keys = [k0, k1, k2], vals = [v0, v1, v2], hsize = 0\<rparr>, [c0, c1, c2], 0)
     = Inr (\<lparr>keys = [k0, k1, k2], vals = [v0, v1, v2], hsize = 0\<rparr>, [1, 1, 1], 3) \<and>
   hsize (\<lparr>keys = [k0, k1, k2], vals = [v0, v1, v2], hsize = 0\<rparr>\<lparr>hsize := 0 - 1\<rparr>)
     = 18446744073709551615 \<and>
   heap_removeTop \<lparr>keys = [k0, k1, k2], vals = [v0, v1, v2], hsize = 0\<rparr> = Inl Out_Of_Bounds \<and>
   limitedKraftHeap r g d [k0, k1, k2] [v0, v1, v2] 1 [1, 1, 1] [c0, c1, c2]
     = Some (Inl Out_Of_Bounds)"
proof -
  let ?h = "\<lparr>keys = [k0, k1, k2], vals = [v0, v1, v2], hsize = 0\<rparr>"
  have start: "for_each (kraftheap_round 1 2 r g [1, 1, 1]) [0..<3] (?h, [c0, c1, c2], 0)
                 = Inr (?h, [1, 1, 1], 3)"
    using kraft_clamp_1 by (simp add: upt_rec kraftheap_round_def shr_u64_def)
  have top: "heap_removeTop ?h = Inl Out_Of_Bounds"
    by (simp add: heap_removeTop_def word_gt_0 unsigned_minus_1_eq_mask mask_eq_exp_minus_1)
  have "kraftheap_extend 1 2 d (?h, [1, 1, 1], 3) = Some (Inl Out_Of_Bounds)"
    by (subst kraftheap_extend.simps) (simp add: top)
  moreover have "kraft_one 1 = Inr 2"
    using kraft_one_defined [of 1] by simp
  moreover have "length [1, 1, 1 :: u32] = 3"
    by simp
  ultimately have "limitedKraftHeap r g d [k0, k1, k2] [v0, v1, v2] 1 [1, 1, 1] [c0, c1, c2]
                     = Some (Inl Out_Of_Bounds)"
    by (simp only: limitedKraftHeap_def limitedKraftHeap_with_def Let_def sum.case option.case
        start)
  with start top show ?thesis
    by simp
qed

section \<open>The end of the last loop of limitedImpl\<close>

text \<open>
  C10.  The frequencies 1, 1, 2, 4 with \<open>L = 2\<close> are accepted and \<open>2\<^sup>2 \<ge> 4\<close>.
  Huffman's lengths 3, 3, 2, 1 are reduced to the histogram with four codes of length 2.
  After the fourth symbol has its length, every counter is zero, and
  \<^verbatim>\<open>while (histNumBits[reduce] == 0) reduce--\<close> steps from 2 over 1 and 0 to 255: it reads
  \<^verbatim>\<open>histNumBits[255]\<close>, outside the 64 elements.  The same happens with \<open>limitedMiniz\<close>.
\<close>

theorem limitedImpl_last_search_leaves_array:
  "next_used_length (replicate 64 0) 2 = Inl Out_Of_Bounds \<and>
   limitedJpeg 2 [1, 1, 2, 4] [c0, c1, c2, c3] = Some (Inl Out_Of_Bounds) \<and>
   limitedMiniz 2 [1, 1, 2, 4] [c0, c1, c2, c3] = Some (Inl Out_Of_Bounds)"
  by code_simp

section \<open>Kraft arithmetic in 64 bits\<close>

text \<open>
  C5.  \<^verbatim>\<open>unsigned long long one = 1 << maxLength\<close> shifts an \<^verbatim>\<open>int\<close>: it is \<open>2\<^sup>L\<close> exactly
  for \<open>L < 31\<close>, and for no \<open>L\<close> from 31 to 63 (the shift is undefined there, and no \<^verbatim>\<open>int\<close>
  converts to \<open>2\<^sup>3\<^sup>1\<close>).  The total of \<open>limitedMinizInPlace\<close> shifts an \<^verbatim>\<open>unsigned int\<close>:
  with \<open>newL = 32\<close> and two codes of length 1 the computed total is 0, not \<open>2\<^sup>3\<^sup>2\<close>, and
  with \<open>newL = 33\<close> the shift count reaches 32.
\<close>

theorem one_and_total_are_32_bit_shifts:
  "(kraft_one L = Inr (2 ^ L)) = (L < 31) \<and>
   kraft_one 31 = Inl Undefined_Shift \<and>
   (scast (v :: 32 word) :: u64) \<noteq> 2 ^ 31 \<and>
   miniz_kraft_total (0 # 2 # replicate 62 0) 32 32 0 = Inr 0 \<and>
   miniz_kraft_total histNumBits 33 33 tot = Inl Undefined_Shift"
proof -
  have "(kraft_one L = Inr (2 ^ L)) = (L < 31)"
    using kraft_one_defined [of L] kraft_one_undefined [of L] by (cases "L < 31") simp_all
  moreover have "kraft_one 31 = Inl Undefined_Shift"
    using kraft_one_undefined [of 31] by simp
  moreover have "(scast v :: u64) \<noteq> 2 ^ 31"
  proof
    assume a: "(scast v :: u64) = 2 ^ 31"
    have "bit (scast v :: u64) 31 = bit (scast v :: u64) 32"
      by (simp add: bit_signed_iff)
    with a show False
      by (simp add: bit_exp_iff)
  qed
  moreover have "miniz_kraft_total (0 # 2 # replicate 62 0) 32 32 0 = Inr 0"
    by code_simp
  moreover have "miniz_kraft_total histNumBits 33 33 tot = Inl Undefined_Shift"
    by code_simp
  ultimately show ?thesis
    by simp
qed

section \<open>Weighted sums of a length histogram\<close>

lemma hist_kraft_sum_weighted: "hist_kraft_sum L bits = hist_weighted (\<lambda>l. 2 ^ (L - l)) L bits"
  by (simp add: hist_kraft_sum_def hist_weighted_def)

lemma hist_symbols_weighted: "hist_symbols L bits = hist_weighted (\<lambda>l. 1) L bits"
  by (simp add: hist_symbols_def hist_weighted_def)

lemma hist_weighted_update:
  assumes "1 \<le> p" and "p \<le> L" and "p < length h"
  shows "hist_weighted w L (h[p := v]) + unat (h ! p) * w p = hist_weighted w L h + unat v * w p"
proof -
  have fin: "finite {1..L}" and mem: "p \<in> {1..L}"
    using assms by auto
  have rest: "(\<Sum>l \<in> {1..L} - {p}. unat (h[p := v] ! l) * w l) = (\<Sum>l \<in> {1..L} - {p}. unat (h ! l) * w l)"
    by (rule sum.cong) auto
  have "hist_weighted w L (h[p := v]) = unat v * w p + (\<Sum>l \<in> {1..L} - {p}. unat (h ! l) * w l)"
    unfolding hist_weighted_def sum.remove [OF fin mem] rest using assms by simp
  moreover have "hist_weighted w L h = unat (h ! p) * w p + (\<Sum>l \<in> {1..L} - {p}. unat (h ! l) * w l)"
    unfolding hist_weighted_def sum.remove [OF fin mem] by simp
  ultimately show ?thesis
    by simp
qed

lemma hist_weighted_update_outside:
  "p = 0 \<or> L < p \<Longrightarrow> hist_weighted w L (h[p := v]) = hist_weighted w L h"
  unfolding hist_weighted_def by (rule sum.cong) auto

lemma hist_weighted_ge3:
  assumes "a \<in> {1..L}" "b \<in> {1..L}" "c \<in> {1..L}" "a \<noteq> b" "a \<noteq> c" "b \<noteq> c"
  shows "unat (h ! a) + unat (h ! b) + unat (h ! c) \<le> hist_symbols L h"
proof -
  have "(\<Sum>l \<in> {a, b, c}. unat (h ! l)) \<le> (\<Sum>l \<in> {1..L}. unat (h ! l))"
    using assms by (intro sum_mono2) auto
  with assms show ?thesis
    by (simp add: hist_symbols_def)
qed

lemma unat_sub_le: "(b::u32) \<le> a \<Longrightarrow> unat (a - b) = unat a - unat b"
  by (simp add: unat_sub)

lemma unat_minus_2: "2 \<le> unat (x::u32) \<Longrightarrow> unat (x - 2) = unat x - 2"
  using unat_sub [of 2 x] by (simp add: word_le_nat_alt)

lemma unat_minus_1: "1 \<le> unat (x::u32) \<Longrightarrow> unat (x - 1) = unat x - 1"
  using unat_sub [of 1 x] by (simp add: word_le_nat_alt)

lemma unat_plus_1: "unat (x::u32) + 1 < 2 ^ 32 \<Longrightarrow> unat (x + 1) = unat x + 1"
  using unat_add_lem [of x 1] by simp

lemma unat_plus_2: "unat (x::u32) + 2 < 2 ^ 32 \<Longrightarrow> unat (x + 2) = unat x + 2"
  using unat_add_lem [of x 2] by simp

lemma hist_kraft_sum_Suc:
  "hist_kraft_sum (Suc n) h = unat (h ! Suc n) + 2 * hist_kraft_sum n h"
proof -
  have "(\<Sum>l = 1..n. unat (h ! l) * 2 ^ (Suc n - l)) = (\<Sum>l = 1..n. 2 * (unat (h ! l) * 2 ^ (n - l)))"
    by (rule sum.cong) (auto simp: Suc_diff_le)
  then show ?thesis
    by (simp add: hist_kraft_sum_def sum_distrib_left)
qed

lemma hist_symbols_Suc: "hist_symbols (Suc n) h = unat (h ! Suc n) + hist_symbols n h"
  by (simp add: hist_symbols_def)

lemma hist_weighted_Suc:
  "hist_weighted w (Suc n) h = unat (h ! Suc n) * w (Suc n) + hist_weighted w n h"
  by (simp add: hist_weighted_def)

lemma no_longer_than_weighted:
  "no_longer_than i L h \<Longrightarrow> i \<le> L \<Longrightarrow> hist_weighted w L h = hist_weighted w i h"
proof (induction L)
  case 0
  then show ?case by simp
next
  case (Suc L)
  show ?case
  proof (cases "i = Suc L")
    case True
    then show ?thesis by simp
  next
    case False
    with Suc.prems have "i \<le> L" and "h ! Suc L = 0" and "no_longer_than i L h"
      by (auto simp: no_longer_than_def)
    with Suc.IH show ?thesis
      by (simp add: hist_weighted_Suc)
  qed
qed

lemma jpeg_demote_other:
  "l \<noteq> i \<Longrightarrow> l \<noteq> i - 1 \<Longrightarrow> l \<noteq> j + 1 \<Longrightarrow> l \<noteq> j \<Longrightarrow> jpeg_demote h i j ! l = h ! l"
  by (simp add: jpeg_demote_def Let_def)

lemma length_jpeg_demote: "length (jpeg_demote h i j) = length h"
  by (simp add: jpeg_demote_def Let_def)

lemma jpeg_demote_weighted:
  assumes j: "1 \<le> j" "j + 2 \<le> i" and i: "i \<le> L" "L < length h"
    and a: "2 \<le> unat (h ! i)" and e: "1 \<le> unat (h ! j)"
    and n: "hist_symbols L h < 2 ^ 32"
  shows "hist_weighted w L (jpeg_demote h i j) + 2 * w i + w j
           = hist_weighted w L h + w (i - 1) + 2 * w (j + 1)"
proof -
  define h1 where "h1 = h[i := h ! i - 2]"
  define h2 where "h2 = h1[i - 1 := h1 ! (i - 1) + 1]"
  define h3 where "h3 = h2[j + 1 := h2 ! (j + 1) + 2]"
  define h4 where "h4 = h3[j := h3 ! j - 1]"
  have d: "jpeg_demote h i j = h4"
    by (simp add: jpeg_demote_def h1_def h2_def h3_def h4_def Let_def)
  have len: "length h1 = length h" "length h2 = length h" "length h3 = length h"
    by (simp_all add: h1_def h2_def h3_def)
  have "unat (h ! i) + unat (h ! j) + unat (h ! (i - 1)) \<le> hist_symbols L h"
    by (rule hist_weighted_ge3) (use j i in auto)
  with a e have b3: "unat (h ! (i - 1)) + 3 \<le> hist_symbols L h"
    by linarith
  have "unat (h ! i) + unat (h ! j) + unat (h ! (j + 1)) \<le> hist_symbols L h"
    by (rule hist_weighted_ge3) (use j i in auto)
  with a e have c3: "unat (h ! (j + 1)) + 3 \<le> hist_symbols L h"
    by linarith
  have u1: "hist_weighted w L (h[i := v]) + unat (h ! i) * w i
              = hist_weighted w L h + unat v * w i" for v
    by (rule hist_weighted_update) (use j i in auto)
  have s1: "hist_weighted w L h1 + unat (h ! i) * w i = hist_weighted w L h + (unat (h ! i) - 2) * w i"
    using u1 [of "h ! i - 2"] by (simp add: h1_def unat_minus_2 [OF a])
  have h1b: "h1 ! (i - 1) = h ! (i - 1)"
    using j by (simp add: h1_def)
  have u2: "hist_weighted w L (h1[i - 1 := v]) + unat (h1 ! (i - 1)) * w (i - 1)
              = hist_weighted w L h1 + unat v * w (i - 1)" for v
    by (rule hist_weighted_update) (use j i len in auto)
  have v2: "unat (h ! (i - 1) + 1) = unat (h ! (i - 1)) + 1"
    by (rule unat_plus_1) (use b3 n in simp)
  have s2: "hist_weighted w L h2 + unat (h ! (i - 1)) * w (i - 1)
              = hist_weighted w L h1 + (unat (h ! (i - 1)) + 1) * w (i - 1)"
    using u2 [of "h1 ! (i - 1) + 1"] by (simp only: h2_def h1b v2)
  have c: "unat (h2 ! (j + 1)) + 2 < 2 ^ 32"
  proof (cases "j + 1 = i - 1")
    case True
    have "h2 ! (i - 1) = h1 ! (i - 1) + 1"
      using i j len by (simp add: h2_def)
    then have "unat (h2 ! (i - 1)) = unat (h ! (i - 1)) + 1"
      by (simp only: h1b v2)
    moreover have "h2 ! (j + 1) = h2 ! (i - 1)"
      by (rule arg_cong [where f = "(!) h2"]) (rule True)
    ultimately have "unat (h2 ! (j + 1)) = unat (h ! (i - 1)) + 1"
      by (simp only:)
    with b3 n show ?thesis
      by linarith
  next
    case False
    then have "h2 ! (j + 1) = h ! (j + 1)"
      using i j by (simp add: h2_def h1_def)
    then show ?thesis
      using c3 n by simp
  qed
  have u3: "hist_weighted w L (h2[j + 1 := v]) + unat (h2 ! (j + 1)) * w (j + 1)
              = hist_weighted w L h2 + unat v * w (j + 1)" for v
    by (rule hist_weighted_update) (use j i len in auto)
  have s3: "hist_weighted w L h3 + unat (h2 ! (j + 1)) * w (j + 1)
              = hist_weighted w L h2 + (unat (h2 ! (j + 1)) + 2) * w (j + 1)"
    using u3 [of "h2 ! (j + 1) + 2"] by (simp only: h3_def unat_plus_2 [OF c])
  have h3j: "h3 ! j = h ! j"
    using j by (simp add: h3_def h2_def h1_def)
  have u4: "hist_weighted w L (h3[j := v]) + unat (h3 ! j) * w j
              = hist_weighted w L h3 + unat v * w j" for v
    by (rule hist_weighted_update) (use j i len in auto)
  have s4: "hist_weighted w L h4 + unat (h ! j) * w j = hist_weighted w L h3 + (unat (h ! j) - 1) * w j"
    using u4 [of "h3 ! j - 1"] by (simp only: h4_def h3j unat_minus_1 [OF e])
  from a obtain a' where a': "unat (h ! i) = a' + 2"
    by (metis add.commute le_Suc_ex)
  from e obtain e' where e': "unat (h ! j) = e' + 1"
    by (metis add.commute le_Suc_ex)
  from s1 s2 s3 s4 show ?thesis
    unfolding d a' e' by (simp add: algebra_simps)
qed


lemma jpeg_find_shorter_le: "jpeg_find_shorter h n \<le> n"
  by (induction n) auto

lemma jpeg_find_shorter_used: "jpeg_find_shorter h n \<noteq> 0 \<Longrightarrow> h ! jpeg_find_shorter h n \<noteq> 0"
  by (induction n) (auto split: if_splits)

lemma jpeg_find_shorter_none:
  "jpeg_find_shorter h n = 0 \<Longrightarrow> 1 \<le> l \<Longrightarrow> l \<le> n \<Longrightarrow> h ! l = 0"
  by (induction n) (auto split: if_splits simp: le_Suc_eq)

lemma hist_weighted_unused: "(\<And>l. 1 \<le> l \<Longrightarrow> l \<le> n \<Longrightarrow> h ! l = 0) \<Longrightarrow> hist_weighted w n h = 0"
  by (simp add: hist_weighted_def)

lemma jpeg_needs_even:
  assumes "hist_kraft_sum (Suc n) h = 2 ^ Suc n" and "h ! Suc n \<noteq> 0"
  shows "2 \<le> unat (h ! Suc n)"
proof -
  from assms(1) have "even (unat (h ! Suc n) + 2 * hist_kraft_sum n h)"
    by (simp add: hist_kraft_sum_Suc)
  then have "even (unat (h ! Suc n))"
    by simp
  moreover from assms(2) have "unat (h ! Suc n) \<noteq> 0"
    by (simp add: unat_eq_0)
  ultimately show ?thesis
    by presburger
qed

lemma jpeg_finds_shorter:
  assumes k: "hist_kraft_sum (Suc (Suc n)) h = 2 ^ Suc (Suc n)"
    and s: "hist_symbols (Suc (Suc n)) h \<le> 2 ^ Suc n"
    and u: "h ! Suc (Suc n) \<noteq> 0"
  shows "jpeg_find_shorter h n \<noteq> 0"
proof
  assume "jpeg_find_shorter h n = 0"
  then have z: "h ! l = 0" if "1 \<le> l" "l \<le> n" for l
    using that by (rule jpeg_find_shorter_none)
  have "hist_kraft_sum n h = 0" "hist_symbols n h = 0"
    using hist_weighted_unused [of n h] z
    by (simp_all add: hist_kraft_sum_weighted hist_symbols_weighted)
  with k s have "unat (h ! Suc (Suc n)) + 2 * unat (h ! Suc n) = 2 * 2 ^ Suc n"
    and "unat (h ! Suc (Suc n)) + unat (h ! Suc n) \<le> 2 ^ Suc n"
    by (simp_all add: hist_kraft_sum_Suc hist_symbols_Suc)
  then have "unat (h ! Suc (Suc n)) = 0"
    by linarith
  with u show False
    by (simp add: unat_eq_0)
qed

lemma jpeg_loop_correct:
  assumes "2 \<le> newL" "newL \<le> i" "i \<le> oldL" "oldL < length h" "no_longer_than i oldL h"
    "hist_kraft_sum i h = 2 ^ i" "hist_symbols oldL h \<le> 2 ^ newL" "hist_symbols oldL h < 2 ^ 32"
  shows "\<exists>h'. jpeg_loop newL i h = Some (newL, h') \<and> length h' = length h
            \<and> no_longer_than newL oldL h' \<and> hist_kraft_sum newL h' = 2 ^ newL
            \<and> hist_symbols oldL h' = hist_symbols oldL h \<and> h' ! 0 = h ! 0"
  using assms
proof (induction "hist_weighted (\<lambda>l. l) oldL h + i" arbitrary: i h rule: less_induct)
  case less
  show ?case
  proof (cases "newL < i")
    case False
    with less.prems have "i = newL"
      by simp
    with less.prems show ?thesis
      by (subst jpeg_loop.simps) simp
  next
    case True
    define n where "n = i - 2"
    with True less.prems(1) have i: "i = Suc (Suc n)" and n: "1 \<le> n"
      by simp_all
    show ?thesis
    proof (cases "h ! i = 0")
      case zero: True
      have nl: "no_longer_than (i - 1) oldL h"
        unfolding no_longer_than_def
      proof (intro allI impI)
        fix l
        assume "i - 1 < l \<and> l \<le> oldL"
        then have "l = i \<or> (i < l \<and> l \<le> oldL)"
          using i by auto
        then show "h ! l = 0"
          using zero less.prems(5) by (auto simp: no_longer_than_def)
      qed
      have k: "hist_kraft_sum (i - 1) h = 2 ^ (i - 1)"
        using less.prems(6) zero by (simp add: i hist_kraft_sum_Suc)
      have "\<exists>h'. jpeg_loop newL (i - 1) h = Some (newL, h') \<and> length h' = length h
            \<and> no_longer_than newL oldL h' \<and> hist_kraft_sum newL h' = 2 ^ newL
            \<and> hist_symbols oldL h' = hist_symbols oldL h \<and> h' ! 0 = h ! 0"
        by (rule less.hyps) (use less.prems True nl k i in auto)
      with True zero show ?thesis
        by (subst jpeg_loop.simps) simp
    next
      case used: False
      define j where "j = jpeg_find_shorter h (i - 2)"
      define h1 where "h1 = jpeg_demote h i j"
      have a: "2 \<le> unat (h ! i)"
        using jpeg_needs_even [of "Suc n" h] less.prems(6) used by (simp add: i)
      have si: "hist_symbols i h = hist_symbols oldL h"
        using no_longer_than_weighted [OF less.prems(5) less.prems(3), of "\<lambda>l. 1"]
        by (simp add: hist_symbols_weighted)
      have "2 ^ newL \<le> (2::nat) ^ Suc n"
        using True i by (intro power_increasing) auto
      with less.prems(7) si have "hist_symbols (Suc (Suc n)) h \<le> 2 ^ Suc n"
        by (simp add: i)
      with less.prems(6) used have "j \<noteq> 0"
        unfolding j_def i using jpeg_finds_shorter [of n h] by simp
      then have j1: "1 \<le> j" and e: "1 \<le> unat (h ! j)"
        using jpeg_find_shorter_used [of h "i - 2"]
        by (auto simp: j_def unat_eq_0 Suc_le_eq unat_gt_0)
      have j2: "j + 2 \<le> i"
        using jpeg_find_shorter_le [of h "i - 2"] i by (simp add: j_def)
      note w = jpeg_demote_weighted [OF j1 j2 less.prems(3) less.prems(4) a e less.prems(8), folded h1_def]
      have len: "length h1 = length h"
        by (simp add: h1_def length_jpeg_demote)
      have nl: "no_longer_than i oldL h1"
        using less.prems(5) j1 j2 unfolding no_longer_than_def h1_def
        by (auto simp: jpeg_demote_other)
      have s1: "hist_symbols oldL h1 = hist_symbols oldL h"
        using w [of "\<lambda>l. 1"] by (simp add: hist_symbols_weighted)
      have "hist_weighted (\<lambda>l. 2 ^ (i - l)) i h1 = hist_weighted (\<lambda>l. 2 ^ (i - l)) i h"
      proof -
        have "hist_weighted (\<lambda>l. 2 ^ (i - l)) oldL h1 + 2 * 2 ^ (i - i) + 2 ^ (i - j)
                = hist_weighted (\<lambda>l. 2 ^ (i - l)) oldL h + 2 ^ (i - (i - 1)) + 2 * 2 ^ (i - (j + 1))"
          by (rule w)
        moreover have "i - j = Suc (i - (j + 1))"
          using j2 by simp
        then have "2 * (2::nat) ^ (i - (j + 1)) = 2 ^ (i - j)"
          by simp
        moreover have "i - (i - 1) = 1"
          using i by simp
        ultimately have "hist_weighted (\<lambda>l. 2 ^ (i - l)) oldL h1 = hist_weighted (\<lambda>l. 2 ^ (i - l)) oldL h"
          by simp
        then show ?thesis
          using no_longer_than_weighted [OF nl less.prems(3)]
            no_longer_than_weighted [OF less.prems(5) less.prems(3)] by simp
      qed
      then have k1: "hist_kraft_sum i h1 = 2 ^ i"
        using less.prems(6) by (simp add: hist_kraft_sum_weighted)
      have "hist_weighted (\<lambda>l. l) oldL h1 + 2 * i + j = hist_weighted (\<lambda>l. l) oldL h + (i - 1) + 2 * (j + 1)"
        by (rule w)
      with j2 have dec: "hist_weighted (\<lambda>l. l) oldL h1 + i < hist_weighted (\<lambda>l. l) oldL h + i"
        by arith
      have h0: "h1 ! 0 = h ! 0"
        using j1 i unfolding h1_def by (simp add: jpeg_demote_other)
      have "\<exists>h'. jpeg_loop newL i h1 = Some (newL, h') \<and> length h' = length h1
            \<and> no_longer_than newL oldL h' \<and> hist_kraft_sum newL h' = 2 ^ newL
            \<and> hist_symbols oldL h' = hist_symbols oldL h1 \<and> h' ! 0 = h1 ! 0"
        by (rule less.hyps [OF dec]) (use less.prems len nl k1 s1 in auto)
      with True used show ?thesis
        unfolding len s1 h0 by (subst jpeg_loop.simps) (simp add: h1_def j_def)
    qed
  qed
qed

section \<open>The reduction of limitedMinizInPlace\<close>

lemma hist_symbols_ge2:
  assumes "a \<in> {1..L}" "b \<in> {1..L}" "a \<noteq> b"
  shows "unat (h ! a) + unat (h ! b) \<le> hist_symbols L h"
proof -
  have "(\<Sum>l \<in> {a, b}. unat (h ! l)) \<le> (\<Sum>l \<in> {1..L}. unat (h ! l))"
    using assms by (intro sum_mono2) auto
  with assms show ?thesis
    by (simp add: hist_symbols_def)
qed

lemma hist_symbols_ge1:
  assumes "a \<in> {1..L}"
  shows "unat (h ! a) \<le> hist_symbols L h"
proof -
  have "(\<Sum>l \<in> {a}. unat (h ! l)) \<le> (\<Sum>l \<in> {1..L}. unat (h ! l))"
    using assms by (intro sum_mono2) auto
  then show ?thesis
    by (simp add: hist_symbols_def)
qed

lemma unat_plus_word: "unat (x::u32) + unat y < 2 ^ 32 \<Longrightarrow> unat (x + y) = unat x + unat y"
  using unat_add_lem [of x y] by simp

text \<open>One step of the collapse keeps the number of symbols.\<close>

lemma miniz_collapse_step_props:
  assumes "1 \<le> newL" "newL < i" "i \<le> L" "L < length h" "hist_symbols L h < 2 ^ 32"
  shows "length (miniz_collapse_step newL i h) = length h"
    and "hist_symbols L (miniz_collapse_step newL i h) = hist_symbols L h"
    and "miniz_collapse_step newL i h ! i = 0"
    and "\<And>l. l \<noteq> newL \<Longrightarrow> l \<noteq> i \<Longrightarrow> miniz_collapse_step newL i h ! l = h ! l"
    and "unat (h ! newL) \<le> unat (miniz_collapse_step newL i h ! newL)"
proof -
  define h1 where "h1 = h[newL := h ! newL + h ! i]"
  define h2 where "h2 = h1[i := 0]"
  have d: "miniz_collapse_step newL i h = h2"
    by (simp add: miniz_collapse_step_def h1_def h2_def Let_def)
  have "unat (h ! newL) + unat (h ! i) \<le> hist_symbols L h"
    by (rule hist_symbols_ge2) (use assms in auto)
  with assms(5) have v: "unat (h ! newL + h ! i) = unat (h ! newL) + unat (h ! i)"
    by (intro unat_plus_word) simp
  have u1: "hist_weighted (\<lambda>l. 1) L (h[newL := x]) + unat (h ! newL) * 1
              = hist_weighted (\<lambda>l. 1) L h + unat x * 1" for x
    by (rule hist_weighted_update) (use assms in auto)
  have u2: "hist_weighted (\<lambda>l. 1) L (h1[i := x]) + unat (h1 ! i) * 1
              = hist_weighted (\<lambda>l. 1) L h1 + unat x * 1" for x
    by (rule hist_weighted_update) (use assms in \<open>auto simp: h1_def\<close>)
  have "h1 ! i = h ! i"
    using assms by (simp add: h1_def)
  with u1 [of "h ! newL + h ! i"] u2 [of 0] v
  show "hist_symbols L (miniz_collapse_step newL i h) = hist_symbols L h"
    by (simp add: d h2_def h1_def [symmetric] hist_symbols_weighted)
  show "length (miniz_collapse_step newL i h) = length h"
    by (simp add: d h2_def h1_def)
  show "miniz_collapse_step newL i h ! i = 0"
    using assms by (simp add: d h2_def h1_def)
  show "miniz_collapse_step newL i h ! l = h ! l" if "l \<noteq> newL" "l \<noteq> i" for l
    using that by (simp add: d h2_def h1_def)
  show "unat (h ! newL) \<le> unat (miniz_collapse_step newL i h ! newL)"
    using assms v by (simp add: d h2_def h1_def)
qed

lemma miniz_collapse_Suc:
  "newL \<le> m \<Longrightarrow> miniz_collapse newL (Suc m) h
     = miniz_collapse_step newL (Suc m) (miniz_collapse newL m h)"
  by (simp add: miniz_collapse_def)

lemma miniz_collapse_props:
  assumes "1 \<le> newL" "newL \<le> m" "m \<le> L" "L < length h" "hist_symbols L h < 2 ^ 32"
  shows "length (miniz_collapse newL m h) = length h
         \<and> hist_symbols L (miniz_collapse newL m h) = hist_symbols L h
         \<and> (\<forall>l. newL < l \<and> l \<le> m \<longrightarrow> miniz_collapse newL m h ! l = 0)
         \<and> (\<forall>l. l < newL \<or> m < l \<longrightarrow> miniz_collapse newL m h ! l = h ! l)
         \<and> unat (h ! newL) \<le> unat (miniz_collapse newL m h ! newL)"
  using assms(2,3)
proof (induction m)
  case 0
  then show ?case
    by (simp add: miniz_collapse_def)
next
  case (Suc m)
  show ?case
  proof (cases "newL = Suc m")
    case True
    then show ?thesis
      by (auto simp: miniz_collapse_def)
  next
    case False
    with Suc.prems have m: "newL \<le> m" "m \<le> L" "newL < Suc m" "Suc m \<le> L"
      by auto
    note IH = Suc.IH [OF m(1,2)]
    let ?h = "miniz_collapse newL m h"
    have pre: "L < length ?h" "hist_symbols L ?h < 2 ^ 32"
      using IH assms by auto
    note st = miniz_collapse_step_props [OF assms(1) m(3) m(4) pre]
    show ?thesis
      unfolding miniz_collapse_Suc [OF m(1)]
    proof (intro conjI allI impI)
      show "length (miniz_collapse_step newL (Suc m) ?h) = length h"
        using st(1) IH by simp
      show "hist_symbols L (miniz_collapse_step newL (Suc m) ?h) = hist_symbols L h"
        using st(2) IH by simp
      show "miniz_collapse_step newL (Suc m) ?h ! l = 0" if "newL < l \<and> l \<le> Suc m" for l
      proof (cases "l = Suc m")
        case True
        then show ?thesis using st(3) by simp
      next
        case False
        with that have "l \<noteq> newL" "l \<noteq> Suc m" "newL < l \<and> l \<le> m"
          by auto
        with st(4) [of l] IH show ?thesis
          by simp
      qed
      show "miniz_collapse_step newL (Suc m) ?h ! l = h ! l" if "l < newL \<or> Suc m < l" for l
      proof -
        from that m have "l \<noteq> newL" "l \<noteq> Suc m" "l < newL \<or> m < l"
          by auto
        with st(4) [of l] IH show ?thesis
          by simp
      qed
      show "unat (h ! newL) \<le> unat (miniz_collapse_step newL (Suc m) ?h ! newL)"
        using st(5) IH by linarith
    qed
  qed
qed


lemma unat_shifted:
  assumes "unat (x::u32) * 2 ^ k < 2 ^ 32"
  shows "unat (ucast (push_bit k x) :: u64) = unat x * 2 ^ k"
proof -
  have "unat (push_bit k x) = unat x * 2 ^ k"
    using assms
    by (simp only: unsigned_push_bit_eq) (simp add: push_bit_eq_mult take_bit_nat_eq_self)
  moreover have "unat (ucast (push_bit k x) :: u64) = take_bit 64 (unat (push_bit k x))"
    by (simp add: unsigned_ucast_eq)
  moreover have "unat (push_bit k x) < 2 ^ 32"
    using unsigned_less [of "push_bit k x"] by simp
  then have "unat (push_bit k x) < 2 ^ 64"
    by simp
  ultimately show ?thesis
    by (simp add: take_bit_nat_eq_self)
qed

lemma unat_plus_u64: "unat (x::u64) + unat y < 2 ^ 64 \<Longrightarrow> unat (x + y) = unat x + unat y"
  using unat_add_lem [of x y] by simp

lemma miniz_kraft_total_exact:
  assumes "newL \<le> 32"
    and "\<And>l. 1 \<le> l \<Longrightarrow> l \<le> n \<Longrightarrow> unat (h ! l) * 2 ^ (newL - l) < 2 ^ 32"
    and "unat tot + hist_weighted (\<lambda>l. 2 ^ (newL - l)) n h < 2 ^ 64"
  shows "\<exists>r. miniz_kraft_total h newL n tot = Inr r
             \<and> unat r = unat tot + hist_weighted (\<lambda>l. 2 ^ (newL - l)) n h"
  using assms(2,3)
proof (induction n arbitrary: tot)
  case 0
  then show ?case
    by (simp add: hist_weighted_def)
next
  case (Suc n)
  let ?t = "ucast (push_bit (newL - Suc n) (h ! Suc n)) :: u64"
  have sh: "shl_u32 (h ! Suc n) (newL - Suc n) = Inr (push_bit (newL - Suc n) (h ! Suc n))"
    using assms(1) by (simp add: shl_u32_def)
  have t: "unat ?t = unat (h ! Suc n) * 2 ^ (newL - Suc n)"
    by (rule unat_shifted) (use Suc.prems(1) [of "Suc n"] in simp)
  have sum: "unat tot + unat ?t + hist_weighted (\<lambda>l. 2 ^ (newL - l)) n h < 2 ^ 64"
    using Suc.prems(2) t by (simp add: hist_weighted_Suc)
  then have a: "unat (tot + ?t) = unat tot + unat ?t"
    by (intro unat_plus_u64) simp
  have "\<exists>r. miniz_kraft_total h newL n (tot + ?t) = Inr r
             \<and> unat r = unat (tot + ?t) + hist_weighted (\<lambda>l. 2 ^ (newL - l)) n h"
    by (rule Suc.IH) (use Suc.prems(1) sum a in auto)
  then show ?case
    using sh a t by (auto simp: hist_weighted_Suc add.assoc)
qed

lemma miniz_find_shorter_Some:
  "miniz_find_shorter h n = Some i \<Longrightarrow> 1 \<le> i \<and> i \<le> n \<and> h ! i \<noteq> 0"
  by (induction n) (auto split: if_splits simp: word_gt_0)

lemma miniz_find_shorter_None:
  "miniz_find_shorter h n = None \<Longrightarrow> 1 \<le> l \<Longrightarrow> l \<le> n \<Longrightarrow> h ! l = 0"
  by (induction n) (auto split: if_splits simp: word_gt_0 le_Suc_eq)

text \<open>One move of the balancing loop.\<close>

lemma miniz_move_props:
  assumes n: "2 \<le> newL" "newL < length h"
    and c: "hist_symbols newL h \<le> 2 ^ newL" "hist_symbols newL h < 2 ^ 32"
    and t: "2 ^ newL < hist_kraft_sum newL h"
    and a: "1 \<le> unat (h ! newL)"
  shows "length (miniz_move newL h) = length h"
    and "hist_symbols newL (miniz_move newL h) = hist_symbols newL h"
    and "hist_kraft_sum newL (miniz_move newL h) + 1 = hist_kraft_sum newL h"
    and "unat (h ! newL) \<le> unat (miniz_move newL h ! newL) + 1"
    and "\<And>l. newL < l \<Longrightarrow> miniz_move newL h ! l = h ! l"
proof -
  define h1 where "h1 = h[newL := h ! newL - 1]"
  have len1: "length h1 = length h"
    by (simp add: h1_def)
  have u1: "hist_weighted w newL (h[newL := v]) + unat (h ! newL) * w newL
              = hist_weighted w newL h + unat v * w newL" for w v
    by (rule hist_weighted_update) (use n in auto)
  have s1: "hist_weighted w newL h1 + unat (h ! newL) * w newL
              = hist_weighted w newL h + (unat (h ! newL) - 1) * w newL" for w
    using u1 [of w "h ! newL - 1"] by (simp only: h1_def unat_minus_1 [OF a])
  have low: "h1 ! l = h ! l" if "l \<noteq> newL" for l
    using that by (simp add: h1_def)
  obtain i where i: "miniz_find_shorter h1 (newL - 1) = Some i"
  proof (cases "miniz_find_shorter h1 (newL - 1)")
    case None
    then have "h1 ! l = 0" if "1 \<le> l" "l \<le> newL - 1" for l
      using that by (rule miniz_find_shorter_None)
    then have z: "h ! l = 0" if "1 \<le> l" "l \<le> newL - 1" for l
      using that low [of l] by simp
    obtain m where m: "newL = Suc m"
      using n by (cases newL) auto
    have "hist_kraft_sum m h = 0" "hist_symbols m h = 0"
      using hist_weighted_unused [of m h] z m
      by (simp_all add: hist_kraft_sum_weighted hist_symbols_weighted)
    then have "hist_kraft_sum newL h = hist_symbols newL h"
      by (simp add: m hist_kraft_sum_Suc hist_symbols_Suc)
    with c t have False
      by simp
    then show ?thesis ..
  next
    case (Some i)
    then show ?thesis
      by (rule that)
  qed
  from miniz_find_shorter_Some [OF i] have i1: "1 \<le> i" "i + 1 \<le> newL" and "h1 ! i \<noteq> 0"
    using n by auto
  then have e: "1 \<le> unat (h ! i)"
    using low [of i] by (simp add: unat_eq_0 Suc_le_eq unat_gt_0)
  define h2 where "h2 = h1[i := h1 ! i - 1]"
  define h3 where "h3 = h2[i + 1 := h2 ! (i + 1) + 2]"
  have d: "miniz_move newL h = h3"
    using i by (simp add: miniz_move_def h1_def [symmetric] h2_def h3_def Let_def)
  have len: "length h2 = length h" "length h3 = length h"
    by (simp_all add: h2_def h3_def len1)
  have h1i: "h1 ! i = h ! i"
    using i1 by (intro low) simp
  have u2: "hist_weighted w newL (h1[i := v]) + unat (h1 ! i) * w i
              = hist_weighted w newL h1 + unat v * w i" for w v
    by (rule hist_weighted_update) (use n i1 len1 in auto)
  have s2: "hist_weighted w newL h2 + unat (h ! i) * w i
              = hist_weighted w newL h1 + (unat (h ! i) - 1) * w i" for w
    using u2 [of w "h1 ! i - 1"] by (simp only: h2_def h1i unat_minus_1 [OF e])
  from a obtain a' where a': "unat (h ! newL) = a' + 1"
    by (metis add.commute le_Suc_ex)
  from e obtain e' where e': "unat (h ! i) = e' + 1"
    by (metis add.commute le_Suc_ex)
  have n2: "hist_symbols newL h2 + 2 = hist_symbols newL h"
    using s1 [of "\<lambda>l. 1"] s2 [of "\<lambda>l. 1"] unfolding a' e'
    by (simp add: hist_symbols_weighted)
  have "unat (h2 ! (i + 1)) \<le> hist_symbols newL h2"
    by (rule hist_symbols_ge1) (use i1 in auto)
  with n2 c have cc: "unat (h2 ! (i + 1)) + 2 < 2 ^ 32"
    by linarith
  have u3: "hist_weighted w newL (h2[i + 1 := v]) + unat (h2 ! (i + 1)) * w (i + 1)
              = hist_weighted w newL h2 + unat v * w (i + 1)" for w v
    by (rule hist_weighted_update) (use n i1 len in auto)
  have s3: "hist_weighted w newL h3 + unat (h2 ! (i + 1)) * w (i + 1)
              = hist_weighted w newL h2 + (unat (h2 ! (i + 1)) + 2) * w (i + 1)" for w
    using u3 [of w "h2 ! (i + 1) + 2"] by (simp only: h3_def unat_plus_2 [OF cc])
  have all: "hist_weighted w newL h3 + w newL + w i = hist_weighted w newL h + 2 * w (i + 1)" for w
    using s1 [of w] s2 [of w] s3 [of w] unfolding a' e' by (simp add: algebra_simps)
  show "length (miniz_move newL h) = length h"
    by (simp add: d len)
  show "hist_symbols newL (miniz_move newL h) = hist_symbols newL h"
    using all [of "\<lambda>l. 1"] by (simp add: d hist_symbols_weighted)
  have "newL - i = Suc (newL - (i + 1))"
    using i1 by simp
  then have "2 * (2::nat) ^ (newL - (i + 1)) = 2 ^ (newL - i)"
    by simp
  with all [of "\<lambda>l. 2 ^ (newL - l)"]
  show "hist_kraft_sum newL (miniz_move newL h) + 1 = hist_kraft_sum newL h"
    by (simp add: d hist_kraft_sum_weighted)
  have "h2 ! newL = h ! newL - 1"
    using i1 n by (simp add: h2_def h1_def)
  then have "unat (h2 ! newL) + 1 = unat (h ! newL)"
    using a by (simp add: unat_minus_1)
  moreover have "unat (h2 ! newL) \<le> unat (h3 ! newL)"
  proof (cases "i + 1 = newL")
    case True
    have "h3 ! (i + 1) = h2 ! (i + 1) + 2"
      using i1 n len by (simp add: h3_def)
    then have "unat (h3 ! (i + 1)) = unat (h2 ! (i + 1)) + 2"
      by (simp only: unat_plus_2 [OF cc])
    then show ?thesis
      unfolding True by simp
  next
    case False
    then show ?thesis
      by (simp add: h3_def)
  qed
  ultimately show "unat (h ! newL) \<le> unat (miniz_move newL h ! newL) + 1"
    by (simp add: d)
  show "miniz_move newL h ! l = h ! l" if "newL < l" for l
    using that i1 by (simp add: d h3_def h2_def h1_def)
qed


lemma miniz_loop_props:
  assumes "2 \<le> newL" "newL < length h" "unat one = 2 ^ newL"
    and "hist_symbols newL h \<le> 2 ^ newL" "hist_symbols newL h < 2 ^ 32"
    and "unat tot = hist_kraft_sum newL h"
    and "hist_kraft_sum newL h \<le> 2 ^ newL + unat (h ! newL)"
  shows "length (miniz_loop newL one tot h) = length h
         \<and> hist_symbols newL (miniz_loop newL one tot h) = hist_symbols newL h
         \<and> hist_kraft_sum newL (miniz_loop newL one tot h) \<le> 2 ^ newL
         \<and> (\<forall>l. newL < l \<longrightarrow> miniz_loop newL one tot h ! l = h ! l)
         \<and> (hist_kraft_sum newL h + 1 \<le> 2 ^ newL + unat (h ! newL) \<and> 1 \<le> unat (h ! newL)
              \<longrightarrow> miniz_loop newL one tot h ! newL \<noteq> 0)"
  using assms
proof (induction newL one tot h rule: miniz_loop.induct)
  case (1 newL one tot h)
  show ?case
  proof (cases "one < tot")
    case False
    then have "hist_kraft_sum newL h \<le> 2 ^ newL"
      using "1.prems" by (simp add: word_less_nat_alt)
    with False show ?thesis
      by (auto simp: unat_eq_0)
  next
    case True
    then have t: "2 ^ newL < hist_kraft_sum newL h"
      using "1.prems" by (simp add: word_less_nat_alt)
    with "1.prems" have a: "1 \<le> unat (h ! newL)"
      by linarith
    note mv = miniz_move_props [OF "1.prems"(1,2,4,5) t a]
    let ?h = "miniz_move newL h"
    have "tot \<noteq> 0"
      using True by auto
    then have tot': "unat (tot - 1) = hist_kraft_sum newL ?h"
      using mv(3) "1.prems"(6) by (simp add: unat_minus_one)
    have i3: "hist_kraft_sum newL ?h \<le> 2 ^ newL + unat (?h ! newL)"
      using mv(3,4) "1.prems"(7) by linarith
    have IH: "length (miniz_loop newL one (tot - 1) ?h) = length ?h
         \<and> hist_symbols newL (miniz_loop newL one (tot - 1) ?h) = hist_symbols newL ?h
         \<and> hist_kraft_sum newL (miniz_loop newL one (tot - 1) ?h) \<le> 2 ^ newL
         \<and> (\<forall>l. newL < l \<longrightarrow> miniz_loop newL one (tot - 1) ?h ! l = ?h ! l)
         \<and> (hist_kraft_sum newL ?h + 1 \<le> 2 ^ newL + unat (?h ! newL) \<and> 1 \<le> unat (?h ! newL)
              \<longrightarrow> miniz_loop newL one (tot - 1) ?h ! newL \<noteq> 0)"
      by (rule "1.IH" [OF True]) (use "1.prems" mv tot' i3 in auto)
    have sharp: "hist_kraft_sum newL ?h + 1 \<le> 2 ^ newL + unat (?h ! newL) \<and> 1 \<le> unat (?h ! newL)"
      if "hist_kraft_sum newL h + 1 \<le> 2 ^ newL + unat (h ! newL)"
      using that t mv(3,4) by linarith
    have unfold: "miniz_loop newL one tot h = miniz_loop newL one (tot - 1) ?h"
      using True by (subst miniz_loop.simps) simp
    show ?thesis
      unfolding unfold using IH mv(1,2,5) sharp by auto
  qed
qed

lemma unat_pow_u64: "n < 64 \<Longrightarrow> unat (2 ^ n :: u64) = 2 ^ n"
proof -
  assume n: "n < 64"
  have "unat (push_bit n (1 :: u64)) = take_bit 64 (push_bit n (unat (1 :: u64)))"
    by (simp only: unsigned_push_bit_eq) simp
  also have "\<dots> = 2 ^ n"
    using n by (simp add: push_bit_eq_mult take_bit_nat_eq_self)
  finally show ?thesis
    by (simp add: push_bit_eq_mult)
qed

lemma hist_kraft_sum_scale: "2 ^ d * hist_kraft_sum n h \<le> hist_kraft_sum (n + d) h"
  by (induction d) (simp_all add: hist_kraft_sum_Suc)

lemma hist_kraft_sum_scale_strict:
  assumes "h ! (n + Suc d) \<noteq> 0"
  shows "2 ^ Suc d * hist_kraft_sum n h < hist_kraft_sum (n + Suc d) h"
proof -
  have "1 \<le> unat (h ! (n + Suc d))"
    using assms by (simp add: unat_eq_0 Suc_le_eq unat_gt_0)
  then show ?thesis
    using hist_kraft_sum_scale [of d n h] by (simp add: hist_kraft_sum_Suc)
qed

lemma hist_kraft_sum_ge1:
  assumes "1 \<le> a" "a \<le> L"
  shows "unat (h ! a) * 2 ^ (L - a) \<le> hist_kraft_sum L h"
proof -
  have "(\<Sum>l \<in> {a}. unat (h ! l) * 2 ^ (L - l)) \<le> (\<Sum>l \<in> {1..L}. unat (h ! l) * 2 ^ (L - l))"
    using assms by (intro sum_mono2) auto
  then show ?thesis
    by (simp add: hist_kraft_sum_def)
qed

lemma hist_weighted_cong:
  "(\<And>l. 1 \<le> l \<Longrightarrow> l \<le> n \<Longrightarrow> h ! l = h' ! l) \<Longrightarrow> hist_weighted w n h = hist_weighted w n h'"
  unfolding hist_weighted_def by (rule sum.cong) auto

lemma limitedMinizInPlace_reduces:
  assumes n: "2 \<le> newL" "newL < oldL" "oldL < length bits" "newL \<le> 31"
    and k: "hist_kraft_sum oldL bits \<le> 2 ^ oldL"
    and c: "hist_symbols oldL bits \<le> 2 ^ newL"
  shows "\<exists>h'. limitedMinizInPlace newL oldL bits = Inr (newL, h')
           \<and> length h' = length bits
           \<and> no_longer_than newL oldL h'
           \<and> hist_kraft_sum newL h' \<le> 2 ^ newL
           \<and> hist_symbols oldL h' = hist_symbols oldL bits
           \<and> (bits ! oldL \<noteq> 0 \<longrightarrow> h' ! newL \<noteq> 0)"
proof -
  define h where "h = miniz_collapse newL oldL bits"
  have "(2::nat) ^ newL \<le> 2 ^ 31"
    using n(4) by (intro power_increasing) auto
  then have p31: "(2::nat) ^ newL \<le> 2147483648"
    by simp
  with c have c32: "hist_symbols oldL bits < 2 ^ 32"
    by simp
  have col: "length h = length bits" "hist_symbols oldL h = hist_symbols oldL bits"
    "\<And>l. newL < l \<Longrightarrow> l \<le> oldL \<Longrightarrow> h ! l = 0"
    "\<And>l. l < newL \<or> oldL < l \<Longrightarrow> h ! l = bits ! l"
    "unat (bits ! newL) \<le> unat (h ! newL)"
    using miniz_collapse_props [of newL oldL oldL bits] n c32 unfolding h_def by auto
  have nl: "no_longer_than newL oldL h"
    using col(3) by (simp add: no_longer_than_def)
  have sn: "hist_symbols newL h = hist_symbols oldL bits"
    using no_longer_than_weighted [OF nl, of "\<lambda>l. 1"] n col(2) by (simp add: hist_symbols_weighted)
  obtain d where d: "oldL = newL + Suc d"
    using n(2) by (metis less_imp_Suc_add add_Suc_right)
  obtain m where m: "newL = Suc m"
    using n(1) by (cases newL) auto
  have kb: "hist_kraft_sum newL bits \<le> 2 ^ newL"
  proof -
    have "2 ^ Suc d * hist_kraft_sum newL bits \<le> hist_kraft_sum oldL bits"
      unfolding d by (rule hist_kraft_sum_scale)
    also have "\<dots> \<le> 2 ^ Suc d * 2 ^ newL"
      using k by (simp only: d power_add mult.commute)
    finally show ?thesis
      by simp
  qed
  have low: "hist_weighted w m h = hist_weighted w m bits" for w
    by (rule hist_weighted_cong) (use col(4) m in auto)
  have "hist_kraft_sum m h = hist_kraft_sum m bits"
    using low [of "\<lambda>l. 2 ^ (m - l)"] by (simp add: hist_kraft_sum_weighted)
  then have kh: "hist_kraft_sum newL h = unat (h ! newL) + 2 * hist_kraft_sum m bits"
    by (simp add: m hist_kraft_sum_Suc)
  have kbits: "hist_kraft_sum newL bits = unat (bits ! newL) + 2 * hist_kraft_sum m bits"
    by (simp add: m hist_kraft_sum_Suc)
  have i3: "hist_kraft_sum newL h \<le> 2 ^ newL + unat (h ! newL)"
    using kh kbits kb by linarith
  have small: "unat (h ! l) * 2 ^ (newL - l) < 2 ^ 32" if "1 \<le> l" "l \<le> newL" for l
  proof (cases "l = newL")
    case True
    then show ?thesis
      using unsigned_less [of "h ! newL"] by simp
  next
    case False
    with that have "h ! l = bits ! l"
      by (intro col(4)) simp
    moreover have "unat (bits ! l) * 2 ^ (newL - l) \<le> hist_kraft_sum newL bits"
      by (rule hist_kraft_sum_ge1) (use that in auto)
    ultimately show ?thesis
      using kb p31 by simp
  qed
  have "unat (h ! newL) < 2 ^ 32"
    using unsigned_less [of "h ! newL"] by simp
  with i3 p31 have k64: "hist_kraft_sum newL h < 2 ^ 64"
    by simp
  obtain tot where tot: "miniz_kraft_total h newL newL 0 = Inr tot"
    and ut: "unat tot = hist_kraft_sum newL h"
    using miniz_kraft_total_exact [of newL newL h 0] n(4) small k64
    by (auto simp: hist_kraft_sum_weighted)
  have one: "shl_u64 1 newL = Inr (2 ^ newL)" "unat (2 ^ newL :: u64) = 2 ^ newL"
    using n(4) by (simp_all add: shl_u64_def unat_pow_u64)
  define h' where "h' = miniz_loop newL (2 ^ newL) tot h"
  have loop: "length h' = length h" "hist_symbols newL h' = hist_symbols newL h"
    "hist_kraft_sum newL h' \<le> 2 ^ newL" "\<And>l. newL < l \<Longrightarrow> h' ! l = h ! l"
    "hist_kraft_sum newL h + 1 \<le> 2 ^ newL + unat (h ! newL) \<and> 1 \<le> unat (h ! newL)
       \<Longrightarrow> h' ! newL \<noteq> 0"
    using miniz_loop_props [of newL h "2 ^ newL" tot] n col(1) one(2) sn c c32 ut i3
    unfolding h'_def by auto
  have nl': "no_longer_than newL oldL h'"
    using loop(4) col(3) by (simp add: no_longer_than_def)
  have sn': "hist_symbols oldL h' = hist_symbols oldL bits"
    using no_longer_than_weighted [OF nl', of "\<lambda>l. 1"] n loop(2) sn
    by (simp add: hist_symbols_weighted)
  have longest: "h' ! newL \<noteq> 0" if used: "bits ! oldL \<noteq> 0"
  proof (rule loop(5), intro conjI)
    have "2 ^ Suc d * hist_kraft_sum newL bits < hist_kraft_sum oldL bits"
      unfolding d by (rule hist_kraft_sum_scale_strict) (use used d in simp)
    also have "\<dots> \<le> 2 ^ Suc d * 2 ^ newL"
      using k by (simp only: d power_add mult.commute)
    finally have "hist_kraft_sum newL bits < 2 ^ newL"
      by simp
    with kh kbits show "hist_kraft_sum newL h + 1 \<le> 2 ^ newL + unat (h ! newL)"
      by linarith
    have "hist_symbols m h = hist_symbols m bits"
      using low [of "\<lambda>l. 1"] by (simp add: hist_symbols_weighted)
    then have "unat (h ! newL) + hist_symbols m bits = hist_symbols oldL bits"
      using sn by (simp add: m hist_symbols_Suc)
    moreover have "hist_symbols m bits + unat (bits ! oldL) \<le> hist_symbols oldL bits"
    proof -
      have "(\<Sum>l \<in> {1..m} \<union> {oldL}. unat (bits ! l)) \<le> (\<Sum>l \<in> {1..oldL}. unat (bits ! l))"
        using m d by (intro sum_mono2) auto
      moreover have "(\<Sum>l \<in> {1..m} \<union> {oldL}. unat (bits ! l))
                       = (\<Sum>l \<in> {1..m}. unat (bits ! l)) + unat (bits ! oldL)"
        using m d by (subst sum.union_disjoint) auto
      ultimately show ?thesis
        by (simp add: hist_symbols_def)
    qed
    moreover have "1 \<le> unat (bits ! oldL)"
      using used by (simp add: unat_eq_0 Suc_le_eq unat_gt_0)
    ultimately show "1 \<le> unat (h ! newL)"
      by linarith
  qed
  have "limitedMinizInPlace newL oldL bits = Inr (newL, h')"
    using n tot one(1) by (simp add: limitedMinizInPlace_def h_def [symmetric] h'_def)
  with loop(1,3) col(1) nl' sn' longest show ?thesis
    by auto
qed

section \<open>The reduction of limitedJpegInPlace\<close>

lemma jpeg_longest_used_props:
  "hist_kraft_sum n h \<noteq> 0 \<Longrightarrow>
   1 \<le> jpeg_longest_used h n \<and> jpeg_longest_used h n \<le> n
   \<and> h ! jpeg_longest_used h n \<noteq> 0 \<and> no_longer_than (jpeg_longest_used h n) n h"
proof (induction n)
  case 0
  then show ?case
    by (simp add: hist_kraft_sum_def)
next
  case (Suc n)
  show ?case
  proof (cases "h ! Suc n = 0")
    case True
    with Suc.prems have "hist_kraft_sum n h \<noteq> 0"
      by (simp add: hist_kraft_sum_Suc)
    from Suc.IH [OF this] True show ?thesis
      by (auto simp: no_longer_than_def le_Suc_eq)
  next
    case False
    then show ?thesis
      by (auto simp: no_longer_than_def)
  qed
qed

lemma limitedJpegInPlace_reduces:
  assumes n: "2 \<le> newL" "newL < oldL" "oldL < length bits"
    and k: "hist_kraft_sum oldL bits = 2 ^ oldL"
    and c: "hist_symbols oldL bits \<le> 2 ^ newL" "hist_symbols oldL bits < 2 ^ 32"
  shows "\<exists>r h'. limitedJpegInPlace newL oldL bits = Some (r, h')
           \<and> length h' = length bits
           \<and> r \<le> newL \<and> longest_used oldL h' r
           \<and> no_longer_than newL oldL h'
           \<and> hist_kraft_sum newL h' = 2 ^ newL
           \<and> hist_symbols oldL h' = hist_symbols oldL bits
           \<and> h' ! 0 = bits ! 0"
proof -
  have "no_longer_than oldL oldL bits"
    by (auto simp: no_longer_than_def)
  with jpeg_loop_correct [of newL oldL oldL bits] n k c
  obtain h' where h': "jpeg_loop newL oldL bits = Some (newL, h')" "length h' = length bits"
    "no_longer_than newL oldL h'" "hist_kraft_sum newL h' = 2 ^ newL"
    "hist_symbols oldL h' = hist_symbols oldL bits" "h' ! 0 = bits ! 0"
    by auto
  define r where "r = jpeg_longest_used h' newL"
  have "hist_kraft_sum newL h' \<noteq> 0"
    using h'(4) by simp
  from jpeg_longest_used_props [OF this]
  have r: "1 \<le> r" "r \<le> newL" "h' ! r \<noteq> 0" "no_longer_than r newL h'"
    by (simp_all add: r_def)
  have "no_longer_than r oldL h'"
    using r(4) h'(3) unfolding no_longer_than_def by (metis not_le_imp_less)
  with r n have "longest_used oldL h' r"
    by (simp add: longest_used_def)
  moreover have "limitedJpegInPlace newL oldL bits = Some (r, h')"
    using n h'(1) by (simp add: limitedJpegInPlace_def r_def)
  ultimately show ?thesis
    using h' r by auto
qed


section \<open>The reducers and the length 1\<close>

text \<open>
  C6, the claim as stated: for \<open>newL = oldL = 1\<close> the reducers return a nonzero length.
  Two codes of length 1 satisfy every stated precondition (\<open>bits[0] = 0\<close>, Kraft sum 1);
  both reducers return 0.
\<close>

theorem reducers_return_zero_for_newL_1:
  "limitedJpegInPlace 1 1 (0 # 2 # replicate 62 0) = Some (0, 0 # 2 # replicate 62 0) \<and>
   limitedMinizInPlace 1 1 (0 # 2 # replicate 62 0) = Inr (0, 0 # 2 # replicate 62 0)"
  by (simp add: limitedJpegInPlace_def limitedMinizInPlace_def)

text \<open>
  C6, with the preconditions the code needs.  For \<open>newL \<le> 1\<close> both reducers return 0 and
  leave the histogram as it is.  For \<open>2 \<le> newL \<le> oldL\<close>, a histogram whose longest used
  length is \<open>oldL\<close> and that has at most \<open>2\<^bsup>newL\<^esup>\<close> symbols:
  \<^item> \<open>limitedJpegInPlace\<close>, on a complete code (Kraft sum exactly 1) of fewer than \<open>2\<^sup>3\<^sup>2\<close>
    symbols, returns a nonzero length \<open>r \<le> newL\<close> that is the longest length in use afterwards;
  \<^item> \<open>limitedMinizInPlace\<close>, on a code of Kraft sum \<open>\<le> 1\<close> and for \<open>newL \<le> 31\<close>, returns
    \<open>newL\<close>, which is the longest length in use afterwards.
\<close>

theorem reducers_return_longest_used_length:
  "(newL \<le> 1 \<longrightarrow>
      limitedJpegInPlace newL oldL bits = Some (0, bits) \<and>
      limitedMinizInPlace newL oldL bits = Inr (0, bits)) \<and>
   (2 \<le> newL \<and> newL \<le> oldL \<and> oldL < length bits \<and> bits ! oldL \<noteq> 0 \<and>
    hist_symbols oldL bits \<le> 2 ^ newL \<and> hist_symbols oldL bits < 2 ^ 32 \<and>
    hist_kraft_sum oldL bits = 2 ^ oldL \<longrightarrow>
      (\<exists>r h'. limitedJpegInPlace newL oldL bits = Some (r, h') \<and> r \<noteq> 0 \<and> r \<le> newL \<and>
         longest_used oldL h' r)) \<and>
   (2 \<le> newL \<and> newL \<le> oldL \<and> oldL < length bits \<and> bits ! oldL \<noteq> 0 \<and>
    hist_symbols oldL bits \<le> 2 ^ newL \<and> newL \<le> 31 \<and>
    hist_kraft_sum oldL bits \<le> 2 ^ oldL \<longrightarrow>
      (\<exists>h'. limitedMinizInPlace newL oldL bits = Inr (newL, h') \<and> longest_used oldL h' newL))"
proof (intro conjI impI; (elim conjE)?)
  assume "newL \<le> 1"
  then show "limitedJpegInPlace newL oldL bits = Some (0, bits)"
    and "limitedMinizInPlace newL oldL bits = Inr (0, bits)"
    by (simp_all add: limitedJpegInPlace_def limitedMinizInPlace_def)
next
  assume a: "2 \<le> newL" "newL \<le> oldL" "oldL < length bits" "bits ! oldL \<noteq> 0"
    "hist_symbols oldL bits \<le> 2 ^ newL" "hist_symbols oldL bits < 2 ^ 32"
    "hist_kraft_sum oldL bits = 2 ^ oldL"
  show "\<exists>r h'. limitedJpegInPlace newL oldL bits = Some (r, h') \<and> r \<noteq> 0 \<and> r \<le> newL \<and>
         longest_used oldL h' r"
  proof (cases "newL = oldL")
    case True
    with a have "limitedJpegInPlace newL oldL bits = Some (newL, bits)"
      and "longest_used oldL bits newL"
      by (auto simp: limitedJpegInPlace_def longest_used_def no_longer_than_def)
    with a show ?thesis
      by auto
  next
    case False
    with a have "newL < oldL"
      by simp
    from limitedJpegInPlace_reduces [OF a(1) this a(3) a(7) a(5) a(6)]
    show ?thesis
      by (auto simp: longest_used_def)
  qed
next
  assume a: "2 \<le> newL" "newL \<le> oldL" "oldL < length bits" "bits ! oldL \<noteq> 0"
    "hist_symbols oldL bits \<le> 2 ^ newL" "newL \<le> 31"
    "hist_kraft_sum oldL bits \<le> 2 ^ oldL"
  show "\<exists>h'. limitedMinizInPlace newL oldL bits = Inr (newL, h') \<and> longest_used oldL h' newL"
  proof (cases "newL = oldL")
    case True
    with a have "limitedMinizInPlace newL oldL bits = Inr (newL, bits)"
      and "longest_used oldL bits newL"
      by (auto simp: limitedMinizInPlace_def longest_used_def no_longer_than_def)
    then show ?thesis
      by auto
  next
    case False
    with a have "newL < oldL"
      by simp
    from limitedMinizInPlace_reduces [OF a(1) this a(3) a(6) a(7) a(5)] a
    show ?thesis
      by (auto simp: longest_used_def)
  qed
qed

text \<open>The theorem at \<open>newL = 4\<close> and \<open>newL = 1\<close> on the six symbols of lengths 1, 2, 3, 4, 5, 5.\<close>

theorem reducers_return_longest_used_length_witness:
  "(\<exists>r h'. limitedJpegInPlace 4 5 [0, 1, 1, 1, 1, 2] = Some (r, h') \<and> r \<noteq> 0 \<and> r \<le> 4 \<and>
      longest_used 5 h' r) \<and>
   (\<exists>h'. limitedMinizInPlace 4 5 [0, 1, 1, 1, 1, 2] = Inr (4, h') \<and> longest_used 5 h' 4) \<and>
   limitedJpegInPlace 1 5 [0, 1, 1, 1, 1, 2] = Some (0, [0, 1, 1, 1, 1, 2]) \<and>
   limitedMinizInPlace 1 5 [0, 1, 1, 1, 1, 2] = Inr (0, [0, 1, 1, 1, 1, 2])"
proof -
  have e: "hist_kraft_sum 5 [0, 1, 1, 1, 1, 2] = 32" "hist_symbols 5 [0, 1, 1, 1, 1, 2] = 6"
    by code_simp+
  show ?thesis
    using reducers_return_longest_used_length [of 4 5 "[0, 1, 1, 1, 1, 2]"]
      reducers_return_longest_used_length [of 1 5 "[0, 1, 1, 1, 1, 2]"]
    by (simp add: e)
qed

section \<open>Kraft sum and number of symbols after a reduction\<close>

text \<open>
  C7, the claim as stated.  Eight codes of length 3 satisfy the stated preconditions
  (\<open>bits[0] = 0\<close>, Kraft sum \<open>8 \<le> 2\<^sup>3\<close>, \<open>0 < 2 \<le> 3\<close>), but no code of length 2 exists for
  eight symbols.  \<open>limitedJpegInPlace\<close> twice finds no shorter code, decrements \<open>bits[0]\<close>
  and leaves 2 codes of length 1 and 8 of length 2: Kraft sum 12 above 4, and 10 symbols
  instead of 8.  \<open>limitedMinizInPlace\<close> leaves 4 symbols instead of 8.
\<close>

theorem reducers_break_kraft_and_count_when_infeasible:
  "limitedJpegInPlace 2 3 [0, 0, 0, 8] = Some (2, [4294967294, 2, 8, 0]) \<and>
   hist_kraft_sum 3 [0, 0, 0, 8] = 8 \<and> hist_symbols 3 [0, 0, 0, 8] = 8 \<and>
   hist_kraft_sum 2 [4294967294, 2, 8, 0] = 12 \<and> hist_symbols 3 [4294967294, 2, 8, 0] = 10 \<and>
   limitedMinizInPlace 2 3 [0, 0, 0, 8] = Inr (2, [0, 0, 4, 0]) \<and>
   hist_symbols 3 [0, 0, 4, 0] = 4"
  by code_simp

text \<open>
  C7, with the preconditions the code needs.  For \<open>2 \<le> newL < oldL\<close> and a histogram of at
  most \<open>2\<^bsup>newL\<^esup>\<close> symbols:
  \<^item> \<open>limitedJpegInPlace\<close>, on a complete code of fewer than \<open>2\<^sup>3\<^sup>2\<close> symbols, returns with no
    length above \<open>newL\<close> in use, Kraft sum at \<open>newL\<close> at most \<open>2\<^bsup>newL\<^esup>\<close>, the number of symbols
    and \<open>bits[0]\<close> unchanged;
  \<^item> \<open>limitedMinizInPlace\<close>, on a code of Kraft sum \<open>\<le> 1\<close> and for \<open>newL \<le> 31\<close>, returns
    with no length above \<open>newL\<close> in use, Kraft sum at \<open>newL\<close> at most \<open>2\<^bsup>newL\<^esup>\<close> and the number
    of symbols unchanged;
  \<^item> one demotion step of the JPEG reducer, applied to at least two codes of length \<open>i\<close> and
    one code of a length \<open>j\<close> with \<open>1 \<le> j \<le> i - 2\<close>, leaves the Kraft sum and the number of
    symbols exactly unchanged.
\<close>

theorem reducers_keep_kraft_and_count:
  "(2 \<le> newL \<and> newL < oldL \<and> oldL < length bits \<and>
    hist_symbols oldL bits \<le> 2 ^ newL \<and> hist_symbols oldL bits < 2 ^ 32 \<and>
    hist_kraft_sum oldL bits = 2 ^ oldL \<longrightarrow>
      (\<exists>r h'. limitedJpegInPlace newL oldL bits = Some (r, h') \<and>
         no_longer_than newL oldL h' \<and> hist_kraft_sum newL h' \<le> 2 ^ newL \<and>
         hist_symbols oldL h' = hist_symbols oldL bits \<and> h' ! 0 = bits ! 0)) \<and>
   (2 \<le> newL \<and> newL < oldL \<and> oldL < length bits \<and>
    hist_symbols oldL bits \<le> 2 ^ newL \<and> newL \<le> 31 \<and>
    hist_kraft_sum oldL bits \<le> 2 ^ oldL \<longrightarrow>
      (\<exists>h'. limitedMinizInPlace newL oldL bits = Inr (newL, h') \<and>
         no_longer_than newL oldL h' \<and> hist_kraft_sum newL h' \<le> 2 ^ newL \<and>
         hist_symbols oldL h' = hist_symbols oldL bits)) \<and>
   (1 \<le> j \<and> j + 2 \<le> i \<and> i \<le> oldL \<and> oldL < length bits \<and>
    2 \<le> unat (bits ! i) \<and> 1 \<le> unat (bits ! j) \<and> hist_symbols oldL bits < 2 ^ 32 \<longrightarrow>
      hist_kraft_sum oldL (jpeg_demote bits i j) = hist_kraft_sum oldL bits \<and>
      hist_symbols oldL (jpeg_demote bits i j) = hist_symbols oldL bits)"
proof (intro conjI impI; (elim conjE)?)
  assume a: "2 \<le> newL" "newL < oldL" "oldL < length bits"
    "hist_symbols oldL bits \<le> 2 ^ newL" "hist_symbols oldL bits < 2 ^ 32"
    "hist_kraft_sum oldL bits = 2 ^ oldL"
  from limitedJpegInPlace_reduces [OF a(1) a(2) a(3) a(6) a(4) a(5)]
  show "\<exists>r h'. limitedJpegInPlace newL oldL bits = Some (r, h') \<and>
         no_longer_than newL oldL h' \<and> hist_kraft_sum newL h' \<le> 2 ^ newL \<and>
         hist_symbols oldL h' = hist_symbols oldL bits \<and> h' ! 0 = bits ! 0"
    by auto
next
  assume a: "2 \<le> newL" "newL < oldL" "oldL < length bits"
    "hist_symbols oldL bits \<le> 2 ^ newL" "newL \<le> 31"
    "hist_kraft_sum oldL bits \<le> 2 ^ oldL"
  from limitedMinizInPlace_reduces [OF a(1) a(2) a(3) a(5) a(6) a(4)]
  show "\<exists>h'. limitedMinizInPlace newL oldL bits = Inr (newL, h') \<and>
         no_longer_than newL oldL h' \<and> hist_kraft_sum newL h' \<le> 2 ^ newL \<and>
         hist_symbols oldL h' = hist_symbols oldL bits"
    by auto
next
  assume a: "1 \<le> j" "j + 2 \<le> i" "i \<le> oldL" "oldL < length bits"
    "2 \<le> unat (bits ! i)" "1 \<le> unat (bits ! j)" "hist_symbols oldL bits < 2 ^ 32"
  have w: "hist_weighted w oldL (jpeg_demote bits i j) + 2 * w i + w j
      = hist_weighted w oldL bits + w (i - 1) + 2 * w (j + 1)" for w
    by (rule jpeg_demote_weighted [OF a])
  have p: "(2::nat) ^ (oldL - (i - 1)) = 2 * 2 ^ (oldL - i)"
    "(2::nat) ^ (oldL - j) = 2 * 2 ^ (oldL - (j + 1))"
    using a(1,2,3) by (simp_all flip: power_Suc add: Suc_diff_le)
  from w [of "\<lambda>l. 2 ^ (oldL - l)"] p
  show "hist_kraft_sum oldL (jpeg_demote bits i j) = hist_kraft_sum oldL bits"
    by (simp add: hist_kraft_sum_weighted)
  from w [of "\<lambda>l. 1"]
  show "hist_symbols oldL (jpeg_demote bits i j) = hist_symbols oldL bits"
    by (simp add: hist_symbols_weighted)
qed

text \<open>The theorem at \<open>newL = 4\<close>, \<open>i = 5\<close>, \<open>j = 3\<close> on the lengths 1, 2, 3, 4, 5, 5.\<close>

theorem reducers_keep_kraft_and_count_witness:
  "(\<exists>r h'. limitedJpegInPlace 4 5 [0, 1, 1, 1, 1, 2] = Some (r, h') \<and>
      no_longer_than 4 5 h' \<and> hist_kraft_sum 4 h' \<le> 2 ^ 4 \<and> hist_symbols 5 h' = 6 \<and> h' ! 0 = 0) \<and>
   (\<exists>h'. limitedMinizInPlace 4 5 [0, 1, 1, 1, 1, 2] = Inr (4, h') \<and>
      no_longer_than 4 5 h' \<and> hist_kraft_sum 4 h' \<le> 2 ^ 4 \<and> hist_symbols 5 h' = 6) \<and>
   hist_kraft_sum 5 (jpeg_demote [0, 1, 1, 1, 1, 2] 5 3) = 32 \<and>
   hist_symbols 5 (jpeg_demote [0, 1, 1, 1, 1, 2] 5 3) = 6"
proof -
  have e: "hist_kraft_sum 5 [0, 1, 1, 1, 1, 2] = 32" "hist_symbols 5 [0, 1, 1, 1, 1, 2] = 6"
    by code_simp+
  show ?thesis
    using reducers_keep_kraft_and_count [of 4 5 "[0, 1, 1, 1, 1, 2]" 3 5]
    by (simp add: e)
qed

section \<open>moffatSortedInPlace: the three phases\<close>

subsection \<open>Loops with an invariant\<close>

lemma for_each_upt:
  assumes "a \<le> n" "I a s"
    and step: "\<And>k s. k < n \<Longrightarrow> I k s \<Longrightarrow> \<exists>s'. body k s = Inr s' \<and> I (Suc k) s'"
  shows "\<exists>s'. for_each body [a..<n] s = Inr s' \<and> I n s'"
  using assms(1,2)
proof (induction "n - a" arbitrary: a s)
  case 0
  then show ?case
    by simp
next
  case (Suc m)
  then have a: "a < n"
    by simp
  from step [OF a Suc.prems(2)] obtain s1 where s1: "body a s = Inr s1" "I (Suc a) s1"
    by auto
  have "\<exists>s'. for_each body [Suc a..<n] s1 = Inr s' \<and> I n s'"
  proof (rule Suc.hyps(1))
    show "m = n - Suc a"
      using Suc.hyps(2) by simp
    show "Suc a \<le> n"
      using a by simp
    show "I (Suc a) s1"
      by (rule s1)
  qed
  then show ?case
    using a s1 by (simp add: upt_conv_Cons)
qed

lemma for_each_append:
  "for_each body (xs @ ys) s =
     (case for_each body xs s of Inl f \<Rightarrow> Inl f | Inr s' \<Rightarrow> for_each body ys s')"
  by (induction xs arbitrary: s) (auto split: sum.splits)

lemma for_each_rev_upt:
  assumes "J n s"
    and step: "\<And>k s. k < n \<Longrightarrow> J (Suc k) s \<Longrightarrow> \<exists>s'. body k s = Inr s' \<and> J k s'"
  shows "\<exists>s'. for_each body (rev [0..<n]) s = Inr s' \<and> J 0 s'"
  using assms
proof (induction n arbitrary: s)
  case 0
  then show ?case
    by simp
next
  case (Suc n)
  from Suc.prems(2) [of n s] Suc.prems(1)
  obtain s1 where s1: "body n s = Inr s1" "J n s1"
    by auto
  have "\<exists>s'. for_each body (rev [0..<n]) s1 = Inr s' \<and> J 0 s'"
    by (rule Suc.IH [OF s1(2)]) (use Suc.prems(2) in auto)
  then show ?case
    using s1 by simp
qed

lemma unat_of_nat_u32: "n < 2 ^ 32 \<Longrightarrow> unat (of_nat n :: u32) = n"
  by (simp add: unsigned_of_nat take_bit_nat_eq_self)

lemma links_okD:
  assumes "links_ok root bound A"
  shows "\<And>j. j < root \<Longrightarrow> j < unat (A ! j)"
    and "\<And>j. j < root \<Longrightarrow> unat (A ! j) < bound"
    and "\<And>j. Suc j < root \<Longrightarrow> unat (A ! j) \<le> unat (A ! Suc j)"
    and "\<And>j. j + 2 < root \<Longrightarrow> unat (A ! j) < unat (A ! (j + 2))"
  using assms unfolding links_ok_def by blast+

lemma links_ok_same:
  assumes l: "links_ok root bound A" and old: "\<And>j. j < root \<Longrightarrow> B ! j = A ! j"
    and b: "bound \<le> bound'"
  shows "links_ok root bound' B"
  unfolding links_ok_def
proof (intro conjI allI impI)
  fix j assume j: "j < root"
  show "j < unat (B ! j)"
    using links_okD(1) [OF l j] old [OF j] by simp
  show "unat (B ! j) < bound'"
    using links_okD(2) [OF l j] old [OF j] b by simp
next
  fix j assume j: "Suc j < root"
  then have "j < root"
    by simp
  from links_okD(3) [OF l j] old [OF this] old [OF j]
  show "unat (B ! j) \<le> unat (B ! Suc j)"
    by simp
next
  fix j assume j: "j + 2 < root"
  then have "j < root"
    by simp
  from links_okD(4) [OF l j] old [OF this] old [OF j]
  show "unat (B ! j) < unat (B ! (j + 2))"
    by simp
qed

lemma links_ok_extend:
  assumes l: "links_ok root bound A" and old: "\<And>j. j < root \<Longrightarrow> B ! j = A ! j"
    and new: "unat (B ! root) = k" and r: "root < k" and b: "bound \<le> Suc k"
    and last: "\<And>j. Suc j < root \<Longrightarrow> unat (A ! j) < k"
    and all: "\<And>j. j < root \<Longrightarrow> unat (A ! j) \<le> k"
  shows "links_ok (Suc root) (Suc k) B"
  unfolding links_ok_def
proof (intro conjI allI impI)
  fix j assume j: "j < Suc root"
  show "j < unat (B ! j)"
  proof (cases "j = root")
    case True
    with new r show ?thesis
      by simp
  next
    case False
    with j have j': "j < root"
      by simp
    from links_okD(1) [OF l j'] old [OF j'] show ?thesis
      by simp
  qed
  show "unat (B ! j) < Suc k"
  proof (cases "j = root")
    case True
    with new show ?thesis
      by simp
  next
    case False
    with j have j': "j < root"
      by simp
    from links_okD(2) [OF l j'] old [OF j'] b show ?thesis
      by simp
  qed
next
  fix j assume j: "Suc j < Suc root"
  then have j': "j < root"
    by simp
  show "unat (B ! j) \<le> unat (B ! Suc j)"
  proof (cases "Suc j = root")
    case True
    with new all [OF j'] old [OF j'] show ?thesis
      by simp
  next
    case False
    with j have j2: "Suc j < root"
      by simp
    from links_okD(3) [OF l j2] old [OF j'] old [OF j2] show ?thesis
      by simp
  qed
next
  fix j assume j: "j + 2 < Suc root"
  then have j': "j < root" and j1: "Suc j < root"
    by simp_all
  show "unat (B ! j) < unat (B ! (j + 2))"
  proof (cases "j + 2 = root")
    case True
    with new last [OF j1] old [OF j'] show ?thesis
      by simp
  next
    case False
    with j have j2: "j + 2 < root"
      by simp
    from links_okD(4) [OF l j2] old [OF j'] old [OF j2] show ?thesis
      by simp
  qed
qed

lemma moffat_first_child_inv:
  assumes "Suc k < M" "M < 2 ^ 32" "combine_inv M k s"
  shows "\<exists>s'. moffat_first_child M k s = Inr s' \<and> combine_mid M k s'"
proof -
  obtain leaf root A where s: "s = (leaf, root, A)"
    by (cases s)
  from assms s have i: "length A = M" "leaf + root = 2 * k" "leaf \<le> M" "root \<le> k"
    and l: "links_ok root k A"
    by (simp_all add: combine_inv_def)
  have k: "unat (of_nat k :: u32) = k"
    using assms by (simp add: unat_of_nat_u32)
  show ?thesis
  proof (cases "leaf \<ge> M \<or> (root < k \<and> A ! root < A ! leaf)")
    case True
    with i assms have r: "root < k"
      by auto
    define B where "B = (A[k := A ! root])[root := of_nat k]"
    have e: "moffat_first_child M k s = Inr (leaf, root + 1, B)"
      using True r i assms by (simp add: moffat_first_child_def s B_def)
    have old: "B ! j = A ! j" if "j < root" for j
      using that r by (simp add: B_def)
    have new: "unat (B ! root) = k"
      using r i assms k by (simp add: B_def)
    have lt: "unat (A ! j) < k" if "j < root" for j
      using links_okD(2) [OF l that] .
    have "links_ok (Suc root) (Suc k) B"
    proof (rule links_ok_extend [OF l old new r])
      show "k \<le> Suc k"
        by simp
      show "unat (A ! j) < k" if "Suc j < root" for j
        using lt [of j] that by simp
      show "unat (A ! j) \<le> k" if "j < root" for j
        using lt [of j] that by simp
    qed
    moreover have "\<forall>j. Suc j < Suc root \<longrightarrow> unat (B ! j) < k"
      using lt old by simp
    ultimately have "combine_mid M k (leaf, root + 1, B)"
      using i r by (simp add: combine_mid_def B_def)
    with e show ?thesis
      by simp
  next
    case False
    then have lf: "leaf < M"
      by auto
    define B where "B = A[k := A ! leaf]"
    have e: "moffat_first_child M k s = Inr (leaf + 1, root, B)"
      using False by (simp add: moffat_first_child_def s B_def)
    have old: "B ! j = A ! j" if "j < root" for j
      using that i by (simp add: B_def)
    have "links_ok root (Suc k) B"
      by (rule links_ok_same [OF l old]) simp_all
    moreover have "\<forall>j. Suc j < root \<longrightarrow> unat (B ! j) < k"
      using links_okD(2) [OF l] old by simp
    ultimately have "combine_mid M k (leaf + 1, root, B)"
      using i lf by (simp add: combine_mid_def B_def)
    with e show ?thesis
      by simp
  qed
qed

lemma moffat_second_child_inv:
  assumes "Suc k < M" "M < 2 ^ 32" "combine_mid M k s"
  shows "\<exists>s'. moffat_second_child M k s = Inr s' \<and> combine_inv M (Suc k) s'"
proof -
  obtain leaf root A where s: "s = (leaf, root, A)"
    by (cases s)
  from assms s have i: "length A = M" "leaf + root = 2 * k + 1" "leaf \<le> M" "root \<le> k"
    and l: "links_ok root (Suc k) A" and last: "\<And>j. Suc j < root \<Longrightarrow> unat (A ! j) < k"
    by (simp_all add: combine_mid_def)
  have k: "unat (of_nat k :: u32) = k"
    using assms by (simp add: unat_of_nat_u32)
  show ?thesis
  proof (cases "leaf \<ge> M \<or> (root < k \<and> A ! root < A ! leaf)")
    case True
    with i assms have r: "root < k"
      by auto
    define B where "B = (A[k := A ! k + A ! root])[root := of_nat k]"
    have e: "moffat_second_child M k s = Inr (leaf, root + 1, B)"
      using True r i assms by (simp add: moffat_second_child_def s B_def)
    have old: "B ! j = A ! j" if "j < root" for j
      using that r by (simp add: B_def)
    have new: "unat (B ! root) = k"
      using r i assms k by (simp add: B_def)
    have "links_ok (Suc root) (Suc k) B"
    proof (rule links_ok_extend [OF l old new r])
      show "Suc k \<le> Suc k"
        by simp
      show "unat (A ! j) < k" if "Suc j < root" for j
        using last that by simp
      show "unat (A ! j) \<le> k" if "j < root" for j
        using links_okD(2) [OF l that] by simp
    qed
    then have "combine_inv M (Suc k) (leaf, root + 1, B)"
      using i r by (simp add: combine_inv_def B_def)
    with e show ?thesis
      by simp
  next
    case False
    then have lf: "leaf < M"
      by auto
    define B where "B = A[k := A ! k + A ! leaf]"
    have e: "moffat_second_child M k s = Inr (leaf + 1, root, B)"
      using False by (simp add: moffat_second_child_def s B_def)
    have old: "B ! j = A ! j" if "j < root" for j
      using that i by (simp add: B_def)
    have "links_ok root (Suc k) B"
      by (rule links_ok_same [OF l old]) simp_all
    then have "combine_inv M (Suc k) (leaf + 1, root, B)"
      using i lf by (simp add: combine_inv_def B_def)
    with e show ?thesis
      by simp
  qed
qed

lemma moffat_phase1_links:
  assumes "2 \<le> length A" "length A < 2 ^ 32"
  shows "\<exists>A1. moffat_phase1 (length A) A = Inr A1 \<and> length A1 = length A
           \<and> links_ok (length A - 2) (length A - 1) A1"
proof -
  let ?M = "length A"
  have "\<exists>s'. for_each (moffat_combine ?M) [0..<?M - 1] (0, 0, A) = Inr s' \<and> combine_inv ?M (?M - 1) s'"
  proof (rule for_each_upt)
    show "0 \<le> ?M - 1"
      by simp
    show "combine_inv ?M 0 (0, 0, A)"
      by (simp add: combine_inv_def links_ok_def)
    fix k s
    assume k: "k < ?M - 1" and s: "combine_inv ?M k s"
    then have k': "Suc k < ?M"
      by simp
    from moffat_first_child_inv [OF k' assms(2) s]
    obtain s1 where s1: "moffat_first_child ?M k s = Inr s1" "combine_mid ?M k s1"
      by auto
    from moffat_second_child_inv [OF k' assms(2) s1(2)] s1(1)
    show "\<exists>s'. moffat_combine ?M k s = Inr s' \<and> combine_inv ?M (Suc k) s'"
      by (simp add: moffat_combine_def)
  qed
  then obtain leaf root A1 where
    r: "for_each (moffat_combine ?M) [0..<?M - 1] (0, 0, A) = Inr (leaf, root, A1)"
    and c: "combine_inv ?M (?M - 1) (leaf, root, A1)"
    by (metis prod_cases3)
  from c have i: "length A1 = ?M" "leaf + root = 2 * (?M - 1)" "leaf \<le> ?M" "links_ok root (?M - 1) A1"
    by (simp_all add: combine_inv_def)
  then have "?M - 2 \<le> root"
    by arith
  with i(4) have "links_ok (?M - 2) (?M - 1) A1"
    unfolding links_ok_def by simp
  with r i show ?thesis
    by (simp add: moffat_phase1_def)
qed

lemma moffat_depth_of_inv:
  assumes k: "k < n" and n: "n + 2 < 2 ^ 32" and l: "links_ok n (Suc n) A1"
    and d: "depth_inv n A1 (Suc k) A"
  shows "\<exists>A'. moffat_depth_of k A = Inr A' \<and> depth_inv n A1 k A'"
proof -
  from d have len: "length A = n + 2" and same: "\<And>j. j < Suc k \<Longrightarrow> A ! j = A1 ! j"
    and root: "A ! n = 0"
    and dep: "\<And>j. Suc k \<le> j \<Longrightarrow> j < n \<Longrightarrow> unat (A ! j) = unat (A ! unat (A1 ! j)) + 1"
    and bnd: "\<And>j. Suc k \<le> j \<Longrightarrow> j \<le> n \<Longrightarrow> unat (A ! j) + j \<le> n"
    unfolding depth_inv_def by blast+
  define p where "p = unat (A1 ! k)"
  have p: "k < p" "p \<le> n"
    using links_okD(1,2) [OF l k] by (simp_all add: p_def)
  have ak: "unat (A ! k) = p"
    using same [of k] by (simp add: p_def)
  define B where "B = A[k := A ! p + 1]"
  have e: "moffat_depth_of k A = Inr B"
    using ak p len by (simp add: moffat_depth_of_def B_def)
  have bp: "unat (A ! p) + p \<le> n"
    using bnd [of p] p by simp
  then have "unat (A ! p) + 1 < 2 ^ 32"
    using n by simp
  then have up: "unat (A ! p + 1) = unat (A ! p) + 1"
    by (simp add: unat_add_lem [THEN iffD1])
  have bk: "unat (B ! k) = unat (A ! p) + 1"
    using up len k by (simp add: B_def)
  have other: "B ! j = A ! j" if "j \<noteq> k" for j
    using that by (simp add: B_def)
  have "depth_inv n A1 k B"
    unfolding depth_inv_def
  proof (intro conjI allI impI)
    show "length B = n + 2"
      using len by (simp add: B_def)
    show "B ! n = 0"
      using root k other [of n] by simp
  next
    fix j assume "j < k"
    then show "B ! j = A1 ! j"
      using same [of j] other [of j] by simp
  next
    fix j assume j: "k \<le> j \<and> j < n"
    show "unat (B ! j) = unat (B ! unat (A1 ! j)) + 1"
    proof (cases "j = k")
      case True
      with bk other [of p] p show ?thesis
        by (simp add: p_def)
    next
      case False
      with j have j': "Suc k \<le> j" "j < n"
        by simp_all
      have "j < unat (A1 ! j)"
        using links_okD(1) [OF l j'(2)] .
      with j' have "unat (A1 ! j) \<noteq> k"
        by simp
      with dep [OF j'] other [of j] other [of "unat (A1 ! j)"] False show ?thesis
        by simp
    qed
  next
    fix j assume j: "k \<le> j \<and> j \<le> n"
    show "unat (B ! j) + j \<le> n"
    proof (cases "j = k")
      case True
      with bk bp p show ?thesis
        by simp
    next
      case False
      with j bnd [of j] other [of j] show ?thesis
        by simp
    qed
  qed
  with e show ?thesis
    by simp
qed

lemma moffat_phase2_tree:
  assumes n: "n + 2 < 2 ^ 32" and len: "length A1 = n + 2" and l: "links_ok n (Suc n) A1"
  shows "\<exists>A2. moffat_phase2 (n + 2) A1 = Inr A2 \<and> length A2 = n + 2
           \<and> tree_ok n (\<lambda>j. unat (A1 ! j)) (\<lambda>j. unat (A2 ! j))
           \<and> (\<forall>j\<le>n. unat (A2 ! j) + j \<le> n)"
proof -
  have "\<exists>A2. for_each moffat_depth_of (rev [0..<n]) (A1[n := 0]) = Inr A2 \<and> depth_inv n A1 0 A2"
  proof (rule for_each_rev_upt [where J = "depth_inv n A1"])
    have "j = n" if "n \<le> j \<and> j \<le> n" for j
      using that by simp
    then show "depth_inv n A1 n (A1[n := 0])"
      using len by (auto simp: depth_inv_def)
    fix k s
    assume "k < n" "depth_inv n A1 (Suc k) s"
    then show "\<exists>s'. moffat_depth_of k s = Inr s' \<and> depth_inv n A1 k s'"
      by (rule moffat_depth_of_inv [OF _ n l])
  qed
  then obtain A2 where r: "moffat_phase2 (n + 2) A1 = Inr A2" and d: "depth_inv n A1 0 A2"
    by (auto simp: moffat_phase2_def)
  from d have d': "length A2 = n + 2" "A2 ! n = 0"
    "\<And>j. j < n \<Longrightarrow> unat (A2 ! j) = unat (A2 ! unat (A1 ! j)) + 1"
    "\<And>j. j \<le> n \<Longrightarrow> unat (A2 ! j) + j \<le> n"
    unfolding depth_inv_def by simp_all
  have "tree_ok n (\<lambda>j. unat (A1 ! j)) (\<lambda>j. unat (A2 ! j))"
    unfolding tree_ok_def
    using d'(2,3) links_okD [OF l] by (auto simp: less_Suc_eq_le)
  with r d' show ?thesis
    by simp
qed

subsection \<open>Facts about the tree\<close>

lemma tree_okD:
  assumes "tree_ok n P D"
  shows "D n = 0"
    and "\<And>j. j < n \<Longrightarrow> j < P j"
    and "\<And>j. j < n \<Longrightarrow> P j \<le> n"
    and "\<And>j. j < n \<Longrightarrow> D j = D (P j) + 1"
    and "\<And>j. Suc j < n \<Longrightarrow> P j \<le> P (Suc j)"
    and "\<And>j. j + 2 < n \<Longrightarrow> P j < P (j + 2)"
  using assms unfolding tree_ok_def by blast+

lemma tree_parent_mono:
  assumes t: "tree_ok n P D" and "i \<le> j" "j < n"
  shows "P i \<le> P j"
  using assms(2,3)
proof (induction j)
  case 0
  then show ?case
    by simp
next
  case (Suc j)
  show ?case
  proof (cases "i = Suc j")
    case True
    then show ?thesis
      by simp
  next
    case False
    with Suc.prems have "i \<le> j" "j < n"
      by simp_all
    from Suc.IH [OF this] tree_okD(5) [OF t Suc.prems(2)] show ?thesis
      by simp
  qed
qed

lemma tree_parent_step2:
  assumes t: "tree_ok n P D" and "j + 2 * i < n"
  shows "P j + i \<le> P (j + 2 * i)"
  using assms(2)
proof (induction i)
  case 0
  then show ?case
    by simp
next
  case (Suc i)
  then have a: "j + 2 * i + 2 < n" and b: "j + 2 * i < n"
    by simp_all
  from tree_okD(6) [OF t a] Suc.IH [OF b] show ?case
    by simp
qed

lemma tree_depth_antimono:
  assumes t: "tree_ok n P D" and "i \<le> j" "j \<le> n"
  shows "D j \<le> D i"
  using assms(2,3)
proof (induction "n - i" arbitrary: i j rule: less_induct)
  case less
  show ?case
  proof (cases "i = j")
    case True
    then show ?thesis
      by simp
  next
    case False
    with less.prems have i: "i < n" "i < j"
      by simp_all
    show ?thesis
    proof (cases "j = n")
      case True
      with tree_okD(1) [OF t] show ?thesis
        by simp
    next
      case False
      with less.prems have j: "j < n"
        by simp
      have "P i \<le> P j"
        using tree_parent_mono [OF t] i j by simp
      moreover have "n - P i < n - i"
        using tree_okD(2) [OF t i(1)] i by arith
      ultimately have "D (P j) \<le> D (P i)"
        using less.hyps [of "P i" "P j"] tree_okD(3) [OF t j] by simp
      with tree_okD(4) [OF t i(1)] tree_okD(4) [OF t j] show ?thesis
        by simp
    qed
  qed
qed

lemma tree_depth_bound:
  assumes t: "tree_ok n P D" and "j \<le> n"
  shows "D j + j \<le> n"
  using assms(2)
proof (induction "n - j" arbitrary: j rule: less_induct)
  case less
  show ?case
  proof (cases "j = n")
    case True
    with tree_okD(1) [OF t] show ?thesis
      by simp
  next
    case False
    with less.prems have j: "j < n"
      by simp
    have "n - P j < n - j"
      using tree_okD(2) [OF t j] j by arith
    from less.hyps [OF this] tree_okD(3) [OF t j] have "D (P j) + P j \<le> n"
      by simp
    with tree_okD(2,4) [OF t j] show ?thesis
      by simp
  qed
qed

text \<open>The nodes of one depth have at most twice as many children among the nodes.\<close>

lemma tree_level_width:
  assumes t: "tree_ok n P D"
    and r: "- 1 \<le> r" "r \<le> root2" "root2 \<le> prev" "root2 < int n"
    and lev: "\<And>j. r < int j \<Longrightarrow> int j \<le> root2 \<Longrightarrow> D j = d"
    and d: "0 < d"
    and up: "\<And>j. j \<le> n \<Longrightarrow> (int j \<le> prev) = (d - 1 \<le> D j)"
    and cur: "\<And>j. j \<le> n \<Longrightarrow> (int j \<le> root2) = (d \<le> D j)"
  shows "root2 - r \<le> 2 * (prev - root2)"
proof (cases "r = root2")
  case True
  with r show ?thesis
    by simp
next
  case False
  define j0 where "j0 = nat (r + 1)"
  define u where "u = nat (root2 - r)"
  define i where "i = (u - 1) div 2"
  have u: "1 \<le> u" "int u = root2 - r"
    using False r by (simp_all add: u_def)
  have j0: "int j0 = r + 1"
    using r by (simp add: j0_def)
  have "2 * i \<le> u - 1"
    by (simp add: i_def)
  then have top: "int (j0 + 2 * i) \<le> root2"
    using u j0 by simp
  then have lt: "j0 + 2 * i < n"
    using r by simp
  then have lt0: "j0 < n"
    by simp
  have "D (j0 + 2 * i) = d"
    by (rule lev) (use top j0 in simp_all)
  with tree_okD(4) [OF t lt] have "D (P (j0 + 2 * i)) = d - 1"
    by simp
  with up [OF tree_okD(3) [OF t lt]] have a: "int (P (j0 + 2 * i)) \<le> prev"
    by simp
  have "D j0 = d"
    by (rule lev) (use top j0 in simp_all)
  with tree_okD(4) [OF t lt0] d have "\<not> d \<le> D (P j0)"
    by simp
  with cur [OF tree_okD(3) [OF t lt0]] have b: "root2 < int (P j0)"
    by simp
  from tree_parent_step2 [OF t lt] a b have "root2 + 1 + int i \<le> prev"
    by simp
  moreover have "u \<le> 2 * i + 2"
    unfolding i_def by arith
  ultimately show ?thesis
    using u by simp
qed

subsection \<open>The spread phase\<close>

lemma moffat_count_level_run:
  assumes "- 1 \<le> root2"
    and ge: "\<And>j. int j \<le> root2 \<Longrightarrow> d \<le> unat (A ! j)"
    and anti: "\<And>i j. i \<le> j \<Longrightarrow> int j \<le> root2 \<Longrightarrow> unat (A ! j) \<le> unat (A ! i)"
  shows "\<exists>r. moffat_count_level A d root2 used = (r, used + word_of_int (root2 - r))
           \<and> - 1 \<le> r \<and> r \<le> root2
           \<and> (\<forall>j. r < int j \<and> int j \<le> root2 \<longrightarrow> unat (A ! j) = d)
           \<and> (\<forall>j. int j \<le> r \<longrightarrow> d < unat (A ! j))"
  using assms
proof (induction "nat (root2 + 1)" arbitrary: root2 used)
  case 0
  then have r: "root2 = - 1"
    by simp
  have "moffat_count_level A d (- 1) used = (- 1, used)"
    by (simp add: moffat_count_level.simps [of A d "- 1"])
  then show ?case
    unfolding r by auto
next
  case (Suc m)
  then have p: "0 \<le> root2"
    by simp
  show ?case
  proof (cases "unat (A ! nat root2) = d")
    case True
    have "\<exists>r. moffat_count_level A d (root2 - 1) (used + 1)
                 = (r, used + 1 + word_of_int (root2 - 1 - r))
           \<and> - 1 \<le> r \<and> r \<le> root2 - 1
           \<and> (\<forall>j. r < int j \<and> int j \<le> root2 - 1 \<longrightarrow> unat (A ! j) = d)
           \<and> (\<forall>j. int j \<le> r \<longrightarrow> d < unat (A ! j))"
    proof (rule Suc.hyps(1))
      show "m = nat (root2 - 1 + 1)"
        using Suc.hyps(2) by simp
      show "- 1 \<le> root2 - 1"
        using p by simp
      show "d \<le> unat (A ! j)" if "int j \<le> root2 - 1" for j
        using Suc.prems(2) [of j] that by simp
      show "unat (A ! j) \<le> unat (A ! i)" if "i \<le> j" "int j \<le> root2 - 1" for i j
        using Suc.prems(3) [of i j] that by simp
    qed
    then obtain r where r: "moffat_count_level A d (root2 - 1) (used + 1)
                 = (r, used + 1 + word_of_int (root2 - 1 - r))"
      "- 1 \<le> r" "r \<le> root2 - 1"
      "\<And>j. r < int j \<Longrightarrow> int j \<le> root2 - 1 \<Longrightarrow> unat (A ! j) = d"
      "\<And>j. int j \<le> r \<Longrightarrow> d < unat (A ! j)"
      by blast
    have w: "used + 1 + word_of_int (root2 - 1 - r) = used + word_of_int (root2 - r)"
      by simp
    have e: "moffat_count_level A d root2 used = (r, used + word_of_int (root2 - r))"
      using True p r(1) w by (simp add: moffat_count_level.simps [of A d root2])
    have "unat (A ! j) = d" if "r < int j" "int j \<le> root2" for j
    proof (cases "int j = root2")
      case True
      then have "j = nat root2"
        by simp
      with \<open>unat (A ! nat root2) = d\<close> show ?thesis
        by simp
    next
      case False
      with that r(4) [of j] show ?thesis
        by simp
    qed
    with e r show ?thesis
      by auto
  next
    case False
    then have e: "moffat_count_level A d root2 used = (root2, used)"
      by (simp add: moffat_count_level.simps [of A d root2])
    have top: "d < unat (A ! nat root2)"
      using Suc.prems(2) [of "nat root2"] p False by simp
    have "d < unat (A ! j)" if "int j \<le> root2" for j
    proof -
      have "j \<le> nat root2"
        using that p by simp
      from Suc.prems(3) [OF this] p top show ?thesis
        by simp
    qed
    with e Suc.prems(1) show ?thesis
      by simp
  qed
qed

lemma moffat_fill_run:
  assumes "unat avail = unat used + m" "int m \<le> nx + 1" "nx < int (length A)"
    "length A < 2 ^ 32"
  shows "\<exists>A'. moffat_fill d used (A, word_of_int nx, avail) = Inr (A', word_of_int (nx - int m), used)
           \<and> length A' = length A
           \<and> (\<forall>i<length A. A' ! i = (if nx - int m < int i \<and> int i \<le> nx then of_nat d else A ! i))"
  using assms
proof (induction m arbitrary: A nx avail)
  case 0
  then have "avail = used"
    by (simp add: word_unat_eq_iff)
  then have "moffat_fill d used (A, word_of_int nx, avail) = Inr (A, word_of_int nx, used)"
    by (simp add: moffat_fill.simps [of d used])
  then show ?case
    by auto
next
  case (Suc m)
  have gt: "avail > used"
    using Suc.prems(1) by (simp add: word_less_nat_alt)
  have nx: "0 \<le> nx"
    using Suc.prems(2) by simp
  have un: "unat (word_of_int nx :: u32) = nat nx"
  proof -
    have "word_of_int nx = (of_nat (nat nx) :: u32)"
      using nx by simp
    moreover have "nat nx < 2 ^ 32"
      using Suc.prems(3,4) nx by simp
    ultimately show ?thesis
      by (simp add: unat_of_nat_u32 del: of_nat_nat)
  qed
  have inb: "nat nx < length A"
    using Suc.prems(3) nx by simp
  define B where "B = A[nat nx := of_nat d]"
  have "avail \<noteq> 0"
    using Suc.prems(1) by (auto simp: unat_eq_0)
  then have av: "unat (avail - 1) = unat used + m"
    using Suc.prems(1) by (simp add: unat_minus_one)
  have step: "moffat_fill d used (A, word_of_int nx, avail)
      = moffat_fill d used (B, word_of_int (nx - 1), avail - 1)"
    using gt un inb by (simp add: moffat_fill.simps [of d used A] B_def)
  have "\<exists>A'. moffat_fill d used (B, word_of_int (nx - 1), avail - 1)
           = Inr (A', word_of_int (nx - 1 - int m), used)
           \<and> length A' = length B
           \<and> (\<forall>i<length B. A' ! i = (if nx - 1 - int m < int i \<and> int i \<le> nx - 1 then of_nat d else B ! i))"
    by (rule Suc.IH) (use av Suc.prems nx in \<open>simp_all add: B_def\<close>)
  then obtain A' where A': "moffat_fill d used (B, word_of_int (nx - 1), avail - 1)
           = Inr (A', word_of_int (nx - 1 - int m), used)" "length A' = length B"
    "\<And>i. i < length B \<Longrightarrow> A' ! i = (if nx - 1 - int m < int i \<and> int i \<le> nx - 1 then of_nat d else B ! i)"
    by blast
  have "A' ! i = (if nx - int (Suc m) < int i \<and> int i \<le> nx then of_nat d else A ! i)"
    if "i < length A" for i
  proof (cases "int i = nx")
    case True
    then have "i = nat nx"
      by simp
    with A'(3) [of i] that True show ?thesis
      by (simp add: B_def)
  next
    case False
    then have "i \<noteq> nat nx"
      using nx by auto
    with A'(3) [of i] that False show ?thesis
      by (auto simp: B_def)
  qed
  with step A' show ?case
    by (simp add: B_def)
qed

lemma moffat_spread_run:
  fixes n :: nat and P D :: "nat \<Rightarrow> nat" and A2 :: "u32 list"
  assumes t: "tree_ok n P D" and A2: "\<And>j. j \<le> n \<Longrightarrow> unat (A2 ! j) = D j"
    and deep: "D 0 \<le> 254" and n: "n + 2 < 2 ^ 31"
    and len: "length A = n + 2"
    and r: "- 1 \<le> root2" "root2 \<le> int n"
    and unread: "\<And>j. int j \<le> root2 \<Longrightarrow> A ! j = A2 ! j"
    and level: "\<And>j. j \<le> n \<Longrightarrow> (int j \<le> root2) = (d \<le> D j)"
    and av: "0 < unat avail"
    and width: "(d = 0 \<and> avail = 1 \<and> root2 = int n) \<or>
       (0 < d \<and> root2 \<le> prev \<and> int (unat avail) = 2 * (prev - root2) \<and>
        (\<forall>j\<le>n. (int j \<le> prev) = (d - 1 \<le> D j)))"
    and nx: "nx = root2 + int (unat avail)" "nx < int n + 2"
    and d: "d \<le> 255"
    and written: "\<And>i. nx < int i \<Longrightarrow> i < n + 2 \<Longrightarrow> unat (A ! i) < d"
    and desc: "\<And>i i'. nx < int i \<Longrightarrow> i \<le> i' \<Longrightarrow> i' < n + 2 \<Longrightarrow> A ! i' \<le> A ! i"
  shows "\<exists>A3. moffat_spread avail d root2 (word_of_int nx) A = Inr A3 \<and> length A3 = n + 2
           \<and> (\<forall>i i'. i \<le> i' \<and> i' < n + 2 \<longrightarrow> A3 ! i' \<le> A3 ! i)
           \<and> (\<forall>i<n + 2. unat (A3 ! i) \<le> 255)"
  using len r unread level av width nx d written desc
proof (induction "nat (root2 + 1)" arbitrary: root2 d avail prev nx A rule: less_induct)
  case less
  note len = less.prems(1) and r = less.prems(2,3) and unread = less.prems(4)
    and level = less.prems(5) and av = less.prems(6) and width = less.prems(7)
    and nx = less.prems(8,9) and d = less.prems(10) and written = less.prems(11)
    and desc = less.prems(12)
  have Aj: "unat (A ! j) = D j" if "int j \<le> root2" for j
    using unread [OF that] A2 [of j] that r by simp
  text \<open>The node below the ones already read is on the current level.\<close>
  have here: "D (nat root2) = d" if "0 \<le> root2"
  proof -
    define j where "j = nat root2"
    have j: "int j = root2" "j \<le> n"
      using that r by (simp_all add: j_def)
    from level [OF j(2)] j have ge: "d \<le> D j"
      by simp
    have "D j \<le> d"
    proof (cases "d = 0")
      case True
      with width have "root2 = int n"
        by simp
      with j have "j = n"
        by simp
      with tree_okD(1) [OF t] show ?thesis
        by simp
    next
      case False
      have "\<not> int n \<le> root2"
        using level [of n] tree_okD(1) [OF t] False by simp
      with j have jn: "j < n"
        by simp
      have "\<not> int (P j) \<le> root2"
        using tree_okD(2) [OF t jn] j by simp
      with level [OF tree_okD(3) [OF t jn]] have "D (P j) < d"
        by simp
      with tree_okD(4) [OF t jn] show ?thesis
        by simp
    qed
    with ge show ?thesis
      by (simp add: j_def)
  qed
  text \<open>Counting the nodes of this level.\<close>
  have "\<exists>r. moffat_count_level A d root2 0 = (r, 0 + word_of_int (root2 - r))
           \<and> - 1 \<le> r \<and> r \<le> root2
           \<and> (\<forall>j. r < int j \<and> int j \<le> root2 \<longrightarrow> unat (A ! j) = d)
           \<and> (\<forall>j. int j \<le> r \<longrightarrow> d < unat (A ! j))"
  proof (rule moffat_count_level_run [OF r(1)])
    show "d \<le> unat (A ! j)" if "int j \<le> root2" for j
      using Aj [OF that] level [of j] that r by simp
    show "unat (A ! j) \<le> unat (A ! i)" if "i \<le> j" "int j \<le> root2" for i j
    proof -
      have "int i \<le> root2" "j \<le> n"
        using that r by simp_all
      with Aj [of i] Aj [of j] that tree_depth_antimono [OF t that(1)] show ?thesis
        by simp
    qed
  qed
  then obtain r' where cnt: "moffat_count_level A d root2 0 = (r', word_of_int (root2 - r'))"
    and r': "- 1 \<le> r'" "r' \<le> root2"
    and eq: "\<And>j. r' < int j \<Longrightarrow> int j \<le> root2 \<Longrightarrow> unat (A ! j) = d"
    and deeper: "\<And>j. int j \<le> r' \<Longrightarrow> d < unat (A ! j)"
    by auto
  define u where "u = nat (root2 - r')"
  define used :: u32 where "used = word_of_int (root2 - r')"
  have u: "int u = root2 - r'"
    using r' by (simp add: u_def)
  have "used = of_nat u"
    using r' by (simp add: used_def u_def)
  moreover have "u < 2 ^ 32"
    using u r r' n by simp
  ultimately have uu: "unat used = u"
    by (simp add: unat_of_nat_u32)
  have u0: "0 < u" if "0 \<le> root2"
  proof (rule ccontr)
    assume "\<not> 0 < u"
    with u have "r' = root2"
      by simp
    with deeper [of "nat root2"] that have "d < unat (A ! nat root2)"
      by simp
    with Aj [of "nat root2"] here that show False
      by simp
  qed
  text \<open>They fit into the slots that are available.\<close>
  have fit: "u \<le> unat avail"
  proof (cases "d = 0")
    case True
    with width have w: "avail = 1" "root2 = int n"
      by simp_all
    have "\<not> 2 \<le> u"
    proof
      assume "2 \<le> u"
      with u w r' have "0 < n"
        by simp
      with \<open>2 \<le> u\<close> u w have j: "r' < int (n - 1)" "int (n - 1) \<le> root2" "n - 1 < n"
        by simp_all
      from eq [OF j(1,2)] Aj [OF j(2)] True have "D (n - 1) = 0"
        by simp
      with tree_okD(4) [OF t j(3)] show False
        by simp
    qed
    with w show ?thesis
      by simp
  next
    case False
    with width have w: "root2 \<le> prev" "int (unat avail) = 2 * (prev - root2)"
      "\<And>j. j \<le> n \<Longrightarrow> (int j \<le> prev) = (d - 1 \<le> D j)"
      by simp_all
    have "\<not> int n \<le> root2"
      using level [of n] tree_okD(1) [OF t] False by simp
    then have "root2 < int n"
      by simp
    have "root2 - r' \<le> 2 * (prev - root2)"
    proof (rule tree_level_width [OF t r' w(1) \<open>root2 < int n\<close>])
      show "D j = d" if "r' < int j" "int j \<le> root2" for j
        using eq [OF that] Aj [OF that(2)] by simp
      show "0 < d"
        using False by simp
      show "(int j \<le> prev) = (d - 1 \<le> D j)" if "j \<le> n" for j
        using w(3) [OF that] .
      show "(int j \<le> root2) = (d \<le> D j)" if "j \<le> n" for j
        using level [OF that] .
    qed
    with w(2) u have "int u \<le> int (unat avail)"
      by linarith
    then show ?thesis
      by (simp only: of_nat_le_iff)
  qed
  text \<open>Writing the leaves of this level.\<close>
  define m where "m = unat avail - u"
  have m: "unat avail = unat used + m"
    using fit uu by (simp add: m_def)
  have nm: "nx - int m = root2 + int u"
    using nx(1) fit by (simp add: m_def)
  have "\<exists>A'. moffat_fill d used (A, word_of_int nx, avail)
           = Inr (A', word_of_int (nx - int m), used)
           \<and> length A' = length A
           \<and> (\<forall>i<length A. A' ! i = (if nx - int m < int i \<and> int i \<le> nx then of_nat d else A ! i))"
  proof (rule moffat_fill_run [OF m])
    show "int m \<le> nx + 1"
      using nm r(1) by simp
    show "nx < int (length A)"
      using nx(2) len by simp
    show "length A < 2 ^ 32"
      using len n by simp
  qed
  then obtain A' where fill: "moffat_fill d used (A, word_of_int nx, avail)
           = Inr (A', word_of_int (nx - int m), used)"
    and len': "length A' = n + 2"
    and A': "\<And>i. i < n + 2 \<Longrightarrow>
      A' ! i = (if nx - int m < int i \<and> int i \<le> nx then of_nat d else A ! i)"
    using len by auto
  have dd: "unat (of_nat d :: u32) = d"
    using d by (simp add: unat_of_nat_u32)
  have wr': "unat (A' ! i) \<le> d" if "nx - int m < int i" "i < n + 2" for i
    using A' [OF that(2)] that written [of i] dd by (cases "int i \<le> nx") simp_all
  have desc': "A' ! i' \<le> A' ! i" if "nx - int m < int i" "i \<le> i'" "i' < n + 2" for i i'
  proof (cases "int i' \<le> nx")
    case True
    with that A' [of i] A' [of i'] show ?thesis
      by simp
  next
    case False
    show ?thesis
    proof (cases "int i \<le> nx")
      case True
      with that False A' [of i] A' [of i'] written [of i'] dd show ?thesis
        by (simp add: word_le_nat_alt)
    next
      case False
      with that A' [of i] A' [of i'] desc [of i i'] show ?thesis
        by simp
    qed
  qed
  have "0 < avail"
    using av by (simp add: word_gt_0 unat_gt_0 [symmetric])
  then have step: "moffat_spread avail d root2 (word_of_int nx) A
      = moffat_spread (2 * used) ((d + 1) mod 256) r' (word_of_int (nx - int m)) A'"
    using cnt fill
    by (simp add: moffat_spread.simps [of avail d root2] Let_def used_def)
  show ?case
  proof (cases "u = 0")
    case True
    with u0 r have root: "root2 = - 1"
      by (cases "0 \<le> root2") auto
    from True uu have "used = 0"
      by (simp add: unat_eq_0)
    then have "moffat_spread avail d root2 (word_of_int nx) A = Inr A'"
      using step by (simp add: moffat_spread.simps [of 0])
    moreover have "A' ! i' \<le> A' ! i" if "i \<le> i'" "i' < n + 2" for i i'
      by (rule desc') (use nm root True that in simp_all)
    moreover have "unat (A' ! i) \<le> 255" if "i < n + 2" for i
      using wr' [of i] nm root True that d by simp
    ultimately show ?thesis
      using len' by blast
  next
    case False
    then have up: "0 < u"
      by simp
    with u r' have lt: "r' < root2"
      by simp
    then have p: "0 \<le> root2"
      using r' by simp
    have "D (nat root2) \<le> D 0"
      by (rule tree_depth_antimono [OF t]) (use r p in simp_all)
    with here [OF p] deep have d254: "d \<le> 254"
      by simp
    then have dm: "(d + 1) mod 256 = d + 1"
      by simp
    have u2: "unat (2 * used) = 2 * u"
    proof -
      have "2 * used = of_nat (2 * u)"
        using \<open>used = of_nat u\<close> by simp
      moreover have "2 * u < 2 ^ 32"
        using u r r' n by simp
      ultimately show ?thesis
        by (simp only: unat_of_nat_u32)
    qed
    have "\<exists>A3. moffat_spread (2 * used) (d + 1) r' (word_of_int (nx - int m)) A' = Inr A3
           \<and> length A3 = n + 2
           \<and> (\<forall>i i'. i \<le> i' \<and> i' < n + 2 \<longrightarrow> A3 ! i' \<le> A3 ! i)
           \<and> (\<forall>i<n + 2. unat (A3 ! i) \<le> 255)"
    proof (rule less.hyps [where prev = root2])
      show "nat (r' + 1) < nat (root2 + 1)"
        using lt r' by simp
      show "length A' = n + 2"
        by (rule len')
      show "- 1 \<le> r'" "r' \<le> int n"
        using r' r by simp_all
      show "A' ! j = A2 ! j" if "int j \<le> r'" for j
      proof -
        have "j < n + 2" "int j \<le> root2" "\<not> nx - int m < int j"
          using that r r' nm by simp_all
        with A' [of j] unread [of j] show ?thesis
          by simp
      qed
      show "(int j \<le> r') = (d + 1 \<le> D j)" if "j \<le> n" for j
      proof (cases "int j \<le> r'")
        case True
        with deeper [OF True] Aj [of j] r' show ?thesis
          by simp
      next
        case False
        show ?thesis
        proof (cases "int j \<le> root2")
          case True
          with False eq [of j] Aj [of j] show ?thesis
            by simp
        next
          case False
          with level [OF that] \<open>\<not> int j \<le> r'\<close> show ?thesis
            by simp
        qed
      qed
      show "0 < unat (2 * used)"
        using u2 up by simp
      show "(d + 1 = 0 \<and> 2 * used = 1 \<and> r' = int n) \<or>
         (0 < d + 1 \<and> r' \<le> root2 \<and> int (unat (2 * used)) = 2 * (root2 - r') \<and>
          (\<forall>j\<le>n. (int j \<le> root2) = (d + 1 - 1 \<le> D j)))"
        using r' u2 u level by simp
      show "nx - int m = r' + int (unat (2 * used))"
        using nm u2 u by simp
      show "nx - int m < int n + 2"
        using nx(2) by simp
      show "d + 1 \<le> 255"
        using d254 by simp
      show "unat (A' ! i) < d + 1" if "nx - int m < int i" "i < n + 2" for i
        using wr' [OF that] by simp
      show "A' ! i' \<le> A' ! i" if "nx - int m < int i" "i \<le> i'" "i' < n + 2" for i i'
        using desc' [OF that] .
    qed
    with step dm show ?thesis
      by simp
  qed
qed

lemma moffat_tree_built:
  assumes "2 \<le> length A" "length A < 2 ^ 31"
  shows "\<exists>A1 A2 k. moffat_phase1 (length A) A = Inr A1 \<and> moffat_phase2 (length A) A1 = Inr A2
           \<and> length A2 = length A
           \<and> tree_ok (length A - 2) (\<lambda>j. unat (A1 ! j)) (\<lambda>j. unat (A2 ! j))
           \<and> moffat_deepest_node A = Some k \<and> k = unat (A2 ! 0) \<and> k + 2 \<le> length A"
proof -
  define n where "n = length A - 2"
  have M: "length A = n + 2"
    using assms by (simp add: n_def)
  have n: "n + 2 < 2 ^ 32"
    using assms M by simp
  from moffat_phase1_links [of A] assms n M
  obtain A1 where A1: "moffat_phase1 (n + 2) A = Inr A1" "length A1 = n + 2" "links_ok n (Suc n) A1"
    by auto
  from moffat_phase2_tree [OF n A1(2,3)]
  obtain A2 where A2: "moffat_phase2 (n + 2) A1 = Inr A2" "length A2 = n + 2"
    "tree_ok n (\<lambda>j. unat (A1 ! j)) (\<lambda>j. unat (A2 ! j))" "\<And>j. j \<le> n \<Longrightarrow> unat (A2 ! j) + j \<le> n"
    by auto
  have "moffat_deepest_node A = Some (unat (A2 ! 0))"
    using A1 A2 by (simp add: moffat_deepest_node_def M)
  with A1 A2 A2(4) [of 0] show ?thesis
    by (simp add: M)
qed

lemma moffatSortedInPlace_shallow:
  assumes len: "2 \<le> length A" "length A < 2 ^ 31"
    and deep: "moffat_deepest_node A = Some k" "k \<le> 254"
  shows "\<exists>A3. moffatSortedInPlace A = Inr (unat (A3 ! 0), A3) \<and> length A3 = length A
           \<and> descending A3"
proof -
  define n where "n = length A - 2"
  have M: "length A = n + 2"
    using len by (simp add: n_def)
  from moffat_tree_built [OF len] deep(1)
  obtain A1 A2 where A1: "moffat_phase1 (length A) A = Inr A1"
    and A2: "moffat_phase2 (length A) A1 = Inr A2" "length A2 = length A"
    and t': "tree_ok (length A - 2) (\<lambda>j. unat (A1 ! j)) (\<lambda>j. unat (A2 ! j))"
    and k: "k = unat (A2 ! 0)"
    by auto
  have t: "tree_ok n (\<lambda>j. unat (A1 ! j)) (\<lambda>j. unat (A2 ! j))"
    using t' by (simp add: n_def)
  have "\<exists>A3. moffat_spread 1 0 (int n) (word_of_int (int n + 1)) A2 = Inr A3 \<and> length A3 = n + 2
           \<and> (\<forall>i i'. i \<le> i' \<and> i' < n + 2 \<longrightarrow> A3 ! i' \<le> A3 ! i)
           \<and> (\<forall>i<n + 2. unat (A3 ! i) \<le> 255)"
  proof (rule moffat_spread_run [OF t, where ?A2.0 = A2 and prev = 0])
    show "unat (A2 ! 0) \<le> 254"
      using deep(2) k by simp
    show "n + 2 < 2 ^ 31"
      using len M by simp
    show "length A2 = n + 2"
      using A2(2) M by simp
    show "(0 = 0 \<and> (1::u32) = 1 \<and> int n = int n) \<or>
       (0 < 0 \<and> int n \<le> 0 \<and> int (unat (1::u32)) = 2 * (0 - int n) \<and>
        (\<forall>j\<le>n. (int j \<le> 0) = (0 - 1 \<le> unat (A2 ! j))))"
      by simp
  qed simp_all
  then obtain A3 where A3: "moffat_spread 1 0 (int n) (word_of_int (int n + 1)) A2 = Inr A3"
    "length A3 = n + 2" "\<And>i i'. i \<le> i' \<Longrightarrow> i' < n + 2 \<Longrightarrow> A3 ! i' \<le> A3 ! i"
    "\<And>i. i < n + 2 \<Longrightarrow> unat (A3 ! i) \<le> 255"
    by blast
  have i: "int (length A) - 2 = int n" "(of_nat (length A - 1) :: u32) = word_of_int (int n + 1)"
    using M by simp_all
  have s: "moffat_spread 1 0 (int (length A) - 2) (of_nat (length A - 1)) A2 = Inr A3"
    unfolding i by (rule A3(1))
  have ne: "\<not> length A \<le> 0" "length A \<noteq> 1"
    using len by arith+
  have "moffatSortedInPlace A = Inr (unat (A3 ! 0) mod 256, A3)"
    unfolding moffatSortedInPlace_def Let_def
    by (simp only: ne A1 A2(1) s if_False sum.case)
  moreover have "unat (A3 ! 0) mod 256 = unat (A3 ! 0)"
    using A3(4) [of 0] by simp
  moreover have "descending A3"
    using A3(2,3) by (simp add: descending_def)
  ultimately show ?thesis
    using A3(2) M by auto
qed

subsection \<open>Weights that add up below \<open>2\<^sup>3\<^sup>2\<close>\<close>

lemma weight_invD:
  assumes "weight_inv w tot M t s (leaf, root, A)"
  shows "\<And>a b. a \<le> b \<Longrightarrow> b < t \<Longrightarrow> s a \<le> s b"
    and "\<And>a. a < t \<Longrightarrow> 1 \<le> s a"
    and "\<And>i. leaf \<le> i \<Longrightarrow> i < M \<Longrightarrow> unat (A ! i) = w i"
    and "\<And>q. root \<le> q \<Longrightarrow> q < t div 2 \<Longrightarrow> unat (A ! q) = node_weight s q"
    and "odd t \<Longrightarrow> unat (A ! (t div 2)) = s (t - 1)"
    and "\<And>j. j < root \<Longrightarrow> \<exists>a<t. a div 2 = unat (A ! j) \<and> s a = node_weight s j"
    and "\<And>a i. a < t \<Longrightarrow> leaf \<le> i \<Longrightarrow> i < M \<Longrightarrow> s a \<le> w i"
    and "\<And>a q. a < t \<Longrightarrow> root \<le> q \<Longrightarrow> q < t div 2 \<Longrightarrow> s a \<le> node_weight s q"
    and "sum w {leaf..<M} + sum (node_weight s) {root..<t div 2}
          + (if odd t then s (t - 1) else 0) = tot"
  using assms unfolding weight_inv_def by (simp_all del: One_nat_def)

lemma node_weight_mono:
  assumes "\<And>a b. a \<le> b \<Longrightarrow> b < t \<Longrightarrow> s a \<le> s b" "q \<le> q'" "2 * q' + 1 < t"
  shows "node_weight s q \<le> node_weight s q'"
proof -
  have "s (2 * q) \<le> s (2 * q')" "s (2 * q + 1) \<le> s (2 * q' + 1)"
    using assms by simp_all
  then show ?thesis
    by (simp add: node_weight_def)
qed

lemma weight_inv_select:
  fixes A :: "u32 list"
  assumes len: "length A = M" and cnt: "leaf + root = t" "leaf \<le> M" "root \<le> k"
    and k: "k = t div 2" "Suc k < M" "M < 2 ^ 32"
    and tot: "tot < 2 ^ 32"
    and srt: "\<And>i j. i \<le> j \<Longrightarrow> j < M \<Longrightarrow> w i \<le> w j"
    and pos: "\<And>i. i < M \<Longrightarrow> 1 \<le> w i"
    and inv: "weight_inv w tot M t s (leaf, root, A)"
    and cond: "cond = (M \<le> leaf \<or> (root < k \<and> A ! root < A ! leaf))"
    and x: "x = (if cond then A ! root else A ! leaf)"
    and y: "y = (if even t then x else A ! k + x)"
    and leaf': "leaf' = (if cond then leaf else Suc leaf)"
    and root': "root' = (if cond then Suc root else root)"
    and A': "A' = (if cond then (A[k := y])[root := of_nat k] else A[k := y])"
  shows "weight_inv w tot M (Suc t) (s(t := unat x)) (leaf', root', A')"
proof -
  note mono = weight_invD(1) [OF inv] and ps = weight_invD(2) [OF inv]
    and lv = weight_invD(3) [OF inv] and nd = weight_invD(4) [OF inv, folded k(1)]
    and pd = weight_invD(5) [OF inv, folded k(1)] and lk = weight_invD(6) [OF inv]
    and gl = weight_invD(7) [OF inv] and gn = weight_invD(8) [OF inv, folded k(1)]
    and cs = weight_invD(9) [OF inv, folded k(1)]
  define c where "c = unat x"
  define s' where "s' = s(t := c)"
  have t2: "2 * k \<le> t" "t \<le> 2 * k + 1"
    using k(1) by arith+
  have tk: "even t \<Longrightarrow> t = 2 * k" "odd t \<Longrightarrow> t = 2 * k + 1"
    using k(1) by (auto elim: evenE oddE)
  have rk: "root < k" if cond
  proof (cases "M \<le> leaf")
    case True
    with cnt t2 k(2) show ?thesis
      by arith
  next
    case False
    with that cond show ?thesis
      by simp
  qed
  have lf: "leaf < M" if "\<not> cond"
    using that cond by simp
  have old: "s' a = s a" if "a < t" for a
    using that by (simp add: s'_def)
  have new: "s' t = c"
    by (simp add: s'_def)
  have nws: "node_weight s' q = node_weight s q" if "q < k" for q
  proof -
    have "2 * q < t" "2 * q + 1 < t"
      using that t2 by arith+
    then show ?thesis
      by (simp add: node_weight_def old)
  qed
  have cn: "c = node_weight s root" if cond
    using nd [of root] rk [OF that] that by (simp add: c_def x)
  have cl: "c = w leaf" if "\<not> cond"
    using lv [of leaf] lf [OF that] that by (simp add: c_def x)
  have ge: "s a \<le> c" if "a < t" for a
  proof (cases cond)
    case True
    with gn [OF that, of root] rk cn show ?thesis
      by simp
  next
    case False
    with gl [OF that, of leaf] lf cl show ?thesis
      by simp
  qed
  have c1: "1 \<le> c"
  proof (cases cond)
    case True
    have "2 * root < t"
      using rk [OF True] t2 by arith
    from ps [OF this] cn [OF True] show ?thesis
      by (simp add: node_weight_def)
  next
    case False
    with pos [of leaf] lf cl show ?thesis
      by simp
  qed
  have nwm: "node_weight s q \<le> node_weight s q'" if "q \<le> q'" "q' < k" for q q'
  proof (rule node_weight_mono [of t])
    show "s a \<le> s b" if "a \<le> b" "b < t" for a b
      using mono that by simp
    show "q \<le> q'"
      by (rule that)
    show "2 * q' + 1 < t"
      using that t2 by arith
  qed
  have minl: "c \<le> w i" if "leaf' \<le> i" "i < M" for i
  proof (cases cond)
    case True
    with that have i: "leaf \<le> i" and l: "leaf < M"
      by (simp_all add: leaf')
    with True cond have "A ! root < A ! leaf"
      by simp
    then have "unat (A ! root) < unat (A ! leaf)"
      by (simp add: word_less_nat_alt)
    with lv [of leaf] l have "c < w leaf"
      using True by (simp add: c_def x)
    with srt [OF i that(2)] show ?thesis
      by simp
  next
    case False
    with that have "leaf \<le> i"
      by (simp add: leaf')
    from srt [OF this that(2)] cl [OF False] show ?thesis
      by simp
  qed
  have minn: "c \<le> node_weight s q" if "root' \<le> q" "q < k" for q
  proof (cases cond)
    case True
    with that have "root \<le> q"
      by (simp add: root')
    from nwm [OF this that(2)] cn [OF True] show ?thesis
      by simp
  next
    case False
    with that have r: "root \<le> q" "root < k"
      by (simp_all add: root')
    with False cond lf have "\<not> A ! root < A ! leaf"
      by simp
    then have "unat (A ! leaf) \<le> unat (A ! root)"
      by (simp add: word_less_nat_alt)
    with lv [of leaf] lf [OF False] nd [of root] r have "w leaf \<le> node_weight s root"
      by simp
    with nwm [OF r(1) that(2)] cl [OF False] show ?thesis
      by simp
  qed
  text \<open>The sums of the items that are left.\<close>
  have suml: "sum w {leaf..<M} = (if cond then 0 else c) + sum w {leaf'..<M}"
  proof (cases cond)
    case True
    then show ?thesis
      by (simp add: leaf')
  next
    case False
    with lf cl sum.atLeast_Suc_lessThan [of leaf M w] show ?thesis
      by (simp add: leaf')
  qed
  have sumn: "sum (node_weight s) {root..<k} = (if cond then c else 0) + sum (node_weight s) {root'..<k}"
  proof (cases cond)
    case True
    with rk cn sum.atLeast_Suc_lessThan [of root k "node_weight s"] show ?thesis
      by (simp add: root')
  next
    case False
    then show ?thesis
      by (simp add: root')
  qed
  have sumn': "sum (node_weight s') {root'..<k} = sum (node_weight s) {root'..<k}"
    by (rule sum.cong) (simp_all add: nws)
  have left: "sum w {leaf'..<M} + sum (node_weight s') {root'..<k} + c
      + (if odd t then s (t - 1) else 0) = tot"
    using cs suml sumn sumn' by (cases cond) simp_all
  text \<open>The value written at \<open>k\<close>.\<close>
  have uy: "unat y = (if even t then c else s (t - 1) + c)"
  proof (cases "even t")
    case True
    then show ?thesis
      by (simp add: y c_def)
  next
    case False
    with left have "s (t - 1) + c \<le> tot"
      by simp
    with tot pd False have "unat (A ! k) + unat x < 2 ^ 32"
      by (simp add: c_def)
    then have "unat (A ! k + x) = unat (A ! k) + unat x"
      by (simp add: unat_add_lem [THEN iffD1])
    with pd False show ?thesis
      by (simp add: y c_def)
  qed
  have kM: "k < M"
    using k(2) by simp
  have Ak: "unat (A' ! k) = unat y"
    using rk kM len by (cases cond) (simp_all add: A')
  have Ar: "unat (A' ! root) = k" if cond
    using that rk [OF that] kM len k(3) by (simp add: A' unat_of_nat_u32)
  have Ao: "A' ! i = A ! i" if "i \<noteq> k" "cond \<longrightarrow> i \<noteq> root" for i
    using that by (cases cond) (simp_all add: A')
  have cnt': "leaf' + root' = Suc t" "root' \<le> k"
    using cnt rk by (cases cond; simp add: leaf' root')+
  have lk': "k < leaf'"
    using cnt' t2 by arith
  have r_le: "root \<le> root'" and l_le: "leaf \<le> leaf'"
    by (simp_all add: leaf' root')
  have h: "Suc t div 2 = (if even t then k else Suc k)" "odd (Suc t) = even t" "Suc t - 1 = t"
    using k(1) by simp_all
  have "weight_inv w tot M (Suc t) s' (leaf', root', A')"
    unfolding weight_inv_def prod.case h
  proof (intro conjI allI impI)
    fix a b assume ab: "a \<le> b \<and> b < Suc t"
    show "s' a \<le> s' b"
    proof (cases "b = t")
      case True
      with ab ge [of a] old [of a] new show ?thesis
        by (cases "a = t") simp_all
    next
      case False
      with ab have "b < t" "a < t" "a \<le> b"
        by simp_all
      with mono [of a b] old [of a] old [of b] show ?thesis
        by simp
    qed
  next
    fix a assume "a < Suc t"
    then show "1 \<le> s' a"
      using ps [of a] c1 old [of a] new by (cases "a = t") simp_all
  next
    fix i assume i: "leaf' \<le> i \<and> i < M"
    then have "i \<noteq> k" "cond \<longrightarrow> i \<noteq> root" "leaf \<le> i"
      using lk' rk l_le by auto
    with Ao [of i] lv [of i] i show "unat (A' ! i) = w i"
      by simp
  next
    fix q assume q: "root' \<le> q \<and> q < (if even t then k else Suc k)"
    show "unat (A' ! q) = node_weight s' q"
    proof (cases "q = k")
      case True
      with q have odd: "odd t"
        by (auto split: if_splits)
      with tk have "t = 2 * k + 1"
        by simp
      then have "node_weight s' k = s (t - 1) + c"
        by (simp add: node_weight_def s'_def)
      with Ak uy odd True show ?thesis
        by simp
    next
      case False
      with q have qk: "q < k" and rq: "root \<le> q" "cond \<longrightarrow> q \<noteq> root"
        using r_le by (auto simp: root' split: if_splits)
      with Ao [of q] nd [of q] nws [of q] show ?thesis
        by simp
    qed
  next
    assume "even t"
    with Ak uy new show "unat (A' ! (if even t then k else Suc k)) = s' t"
      by simp
  next
    fix j assume j: "j < root'"
    show "\<exists>a<Suc t. a div 2 = unat (A' ! j) \<and> s' a = node_weight s' j"
    proof (cases "j < root")
      case True
      with cnt(3) have jk: "j < k"
        by simp
      from lk [OF True] obtain a where a: "a < t" "a div 2 = unat (A ! j)" "s a = node_weight s j"
        by blast
      have "A' ! j = A ! j"
        using True jk by (intro Ao) simp_all
      with a old [of a] nws [OF jk] show ?thesis
        by (intro exI [of _ a]) simp
    next
      case False
      with j have c: cond and jr: "j = root"
        by (simp_all add: root' split: if_splits)
      have "t div 2 = unat (A' ! j)"
        using Ar [OF c] k(1) jr by simp
      moreover have "s' t = node_weight s' j"
        using new cn [OF c] nws [of root] rk [OF c] jr by simp
      ultimately show ?thesis
        by (intro exI [of _ t]) simp
    qed
  next
    fix a i assume "a < Suc t" "leaf' \<le> i \<and> i < M"
    then show "s' a \<le> w i"
      using gl [of a i] minl [of i] old [of a] new l_le by (cases "a = t") simp_all
  next
    fix a q assume a: "a < Suc t" and q: "root' \<le> q \<and> q < (if even t then k else Suc k)"
    have sa: "s' a \<le> c"
      using a ge [of a] old [of a] new by (cases "a = t") simp_all
    show "s' a \<le> node_weight s' q"
    proof (cases "q = k")
      case True
      with q have "odd t"
        by (auto split: if_splits)
      with tk have "t = 2 * k + 1"
        by simp
      then have "node_weight s' k = s (t - 1) + c"
        by (simp add: node_weight_def s'_def)
      with sa True show ?thesis
        by simp
    next
      case False
      with q have qk: "q < k" "root' \<le> q"
        by (auto split: if_splits)
      then have "root \<le> q"
        using r_le by simp
      then show ?thesis
        using a gn [of a q] minn [OF qk(2,1)] nws [OF qk(1)] old [of a] new qk
        by (cases "a = t") simp_all
    qed
  next
    show "sum w {leaf'..<M} + sum (node_weight s') {root'..<if even t then k else Suc k}
        + (if even t then s' t else 0) = tot"
    proof (cases "even t")
      case True
      with left new show ?thesis
        by simp
    next
      case False
      with tk have "t = 2 * k + 1"
        by simp
      then have "node_weight s' k = s (t - 1) + c"
        by (simp add: node_weight_def s'_def)
      with left False cnt'(2) show ?thesis
        by simp
    qed
  qed
  then show ?thesis
    by (simp add: s'_def c_def)
qed

lemma moffat_combine_weights:
  assumes k: "Suc k < M" "M < 2 ^ 32"
    and tot: "tot < 2 ^ 32"
    and srt: "\<And>i j. i \<le> j \<Longrightarrow> j < M \<Longrightarrow> w i \<le> w j"
    and pos: "\<And>i. i < M \<Longrightarrow> 1 \<le> w i"
    and ci: "combine_inv M k st" and wi: "weight_inv w tot M (2 * k) s st"
  shows "\<exists>st' s'. moffat_combine M k st = Inr st' \<and> combine_inv M (Suc k) st'
           \<and> weight_inv w tot M (2 * Suc k) s' st'"
proof -
  obtain leaf root A where st: "st = (leaf, root, A)"
    by (cases st)
  from ci st have i: "length A = M" "leaf + root = 2 * k" "leaf \<le> M" "root \<le> k"
    by (simp_all add: combine_inv_def)
  text \<open>The first child.\<close>
  define c where "c = (M \<le> leaf \<or> (root < k \<and> A ! root < A ! leaf))"
  define x where "x = (if c then A ! root else A ! leaf)"
  define leaf1 where "leaf1 = (if c then leaf else Suc leaf)"
  define root1 where "root1 = (if c then Suc root else root)"
  define A1 where "A1 = (if c then (A[k := x])[root := of_nat k] else A[k := x])"
  have "root < length A"
    using i k by simp
  then have f: "moffat_first_child M k st = Inr (leaf1, root1, A1)"
    by (simp add: moffat_first_child_def st c_def x_def leaf1_def root1_def A1_def)
  from moffat_first_child_inv [OF k ci] f have cm: "combine_mid M k (leaf1, root1, A1)"
    by simp
  have w1: "weight_inv w tot M (Suc (2 * k)) (s(2 * k := unat x)) (leaf1, root1, A1)"
  proof (rule weight_inv_select [OF i(1,2,3,4) _ k tot srt pos _ c_def x_def _ leaf1_def root1_def])
    show "k = 2 * k div 2"
      by simp
    show "weight_inv w tot M (2 * k) s (leaf, root, A)"
      using wi st by simp
    show "x = (if even (2 * k) then x else A ! k + x)"
      by simp
    show "A1 = (if c then (A[k := x])[root := of_nat k] else A[k := x])"
      by (rule A1_def)
  qed
  text \<open>The second child.\<close>
  from cm have j: "length A1 = M" "leaf1 + root1 = Suc (2 * k)" "leaf1 \<le> M" "root1 \<le> k"
    by (simp_all add: combine_mid_def)
  define c2 where "c2 = (M \<le> leaf1 \<or> (root1 < k \<and> A1 ! root1 < A1 ! leaf1))"
  define x2 where "x2 = (if c2 then A1 ! root1 else A1 ! leaf1)"
  define y2 where "y2 = A1 ! k + x2"
  define leaf2 where "leaf2 = (if c2 then leaf1 else Suc leaf1)"
  define root2 where "root2 = (if c2 then Suc root1 else root1)"
  define A2 where "A2 = (if c2 then (A1[k := y2])[root1 := of_nat k] else A1[k := y2])"
  have "root1 < length A1"
    using j k by simp
  then have g: "moffat_second_child M k (leaf1, root1, A1) = Inr (leaf2, root2, A2)"
    by (simp add: moffat_second_child_def c2_def x2_def y2_def leaf2_def root2_def A2_def)
  from moffat_second_child_inv [OF k cm] g have ci2: "combine_inv M (Suc k) (leaf2, root2, A2)"
    by simp
  have "weight_inv w tot M (Suc (Suc (2 * k))) ((s(2 * k := unat x))(Suc (2 * k) := unat x2))
      (leaf2, root2, A2)"
  proof (rule weight_inv_select [OF j(1,2,3,4) _ k tot srt pos w1 c2_def x2_def _ leaf2_def root2_def])
    show "k = Suc (2 * k) div 2"
      by simp
    show "y2 = (if even (Suc (2 * k)) then x2 else A1 ! k + x2)"
      by (simp add: y2_def)
    show "A2 = (if c2 then (A1[k := y2])[root1 := of_nat k] else A1[k := y2])"
      by (rule A2_def)
  qed
  then have "weight_inv w tot M (2 * Suc k) ((s(2 * k := unat x))(Suc (2 * k) := unat x2))
      (leaf2, root2, A2)"
    by simp
  with f g ci2 show ?thesis
    unfolding moffat_combine_def by (auto simp del: fun_upd_apply)
qed

lemma moffat_phase1_weights:
  fixes A :: "u32 list"
  defines "w \<equiv> \<lambda>i. unat (A ! i)"
  assumes len: "2 \<le> length A" "length A < 2 ^ 32"
    and tot: "sum w {0..<length A} < 2 ^ 32"
    and srt: "\<And>i j. i \<le> j \<Longrightarrow> j < length A \<Longrightarrow> w i \<le> w j"
    and pos: "\<And>i. i < length A \<Longrightarrow> 1 \<le> w i"
  shows "\<exists>A1 s. moffat_phase1 (length A) A = Inr A1
           \<and> (\<forall>a b. a \<le> b \<and> b < 2 * (length A - 1) \<longrightarrow> s a \<le> s b)
           \<and> (\<forall>a<2 * (length A - 1). 1 \<le> s a)
           \<and> (\<forall>j<length A - 2. \<exists>a<2 * (length A - 1). a div 2 = unat (A1 ! j) \<and> s a = node_weight s j)
           \<and> node_weight s (length A - 2) < 2 ^ 32"
proof -
  define M where "M = length A"
  define tt where "tt = sum w {0..<M}"
  define I where "I = (\<lambda>k st. combine_inv M k st \<and> (\<exists>s. weight_inv w tt M (2 * k) s st))"
  have "\<exists>st. for_each (moffat_combine M) [0..<M - 1] (0, 0, A) = Inr st \<and> I (M - 1) st"
  proof (rule for_each_upt)
    show "0 \<le> M - 1"
      by simp
    show "I 0 (0, 0, A)"
      by (simp add: I_def combine_inv_def links_ok_def weight_inv_def M_def tt_def w_def)
    fix k st
    assume k: "k < M - 1" and "I k st"
    then obtain s where ci: "combine_inv M k st" and wi: "weight_inv w tt M (2 * k) s st"
      by (auto simp: I_def)
    have k': "Suc k < M"
      using k by simp
    have "\<exists>st' s'. moffat_combine M k st = Inr st' \<and> combine_inv M (Suc k) st'
           \<and> weight_inv w tt M (2 * Suc k) s' st'"
    proof (rule moffat_combine_weights [OF k' _ _ _ _ ci wi])
      show "M < 2 ^ 32" "tt < 2 ^ 32"
        using len tot by (simp_all add: M_def tt_def)
      show "w i \<le> w j" if "i \<le> j" "j < M" for i j
        using srt that by (simp add: M_def)
      show "1 \<le> w i" if "i < M" for i
        using pos that by (simp add: M_def)
    qed
    then show "\<exists>st'. moffat_combine M k st = Inr st' \<and> I (Suc k) st'"
      unfolding I_def by blast
  qed
  then obtain leaf root A1 s where
    r: "for_each (moffat_combine M) [0..<M - 1] (0, 0, A) = Inr (leaf, root, A1)"
    and ci: "combine_inv M (M - 1) (leaf, root, A1)"
    and wi: "weight_inv w tt M (2 * (M - 1)) s (leaf, root, A1)"
    unfolding I_def by (metis prod_cases3)
  from ci have c: "leaf + root = 2 * (M - 1)" "leaf \<le> M" "links_ok root (M - 1) A1"
    by (simp_all add: combine_inv_def)
  have M2: "2 \<le> M"
    using len by (simp add: M_def)
  have ge: "M - 2 \<le> root"
    using c(1,2) M2 by arith
  have le: "root \<le> M - 2"
  proof (rule ccontr)
    assume "\<not> root \<le> M - 2"
    then have "M - 2 < root"
      by simp
    from links_okD(1,2) [OF c(3) this] M2 show False
      by arith
  qed
  from ge le have root: "root = M - 2"
    by simp
  have d2: "2 * (M - 1) div 2 = M - 1"
    by simp
  have "unat (A1 ! (M - 2)) = node_weight s (M - 2)"
    using weight_invD(4) [OF wi, of "M - 2"] root M2 unfolding d2 by simp
  moreover have "unat (A1 ! (M - 2)) < 2 ^ 32"
    using unsigned_less [of "A1 ! (M - 2)", where 'a = nat] by simp
  ultimately have top: "node_weight s (M - 2) < 2 ^ 32"
    by simp
  have "moffat_phase1 M A = Inr A1"
    using r by (simp add: moffat_phase1_def)
  with weight_invD(1,2) [OF wi] weight_invD(6) [OF wi] top root show ?thesis
    unfolding M_def [symmetric] by (intro exI [of _ A1] exI [of _ s]) simp
qed

lemma tree_weight_doubles:
  assumes t: "tree_ok n P D"
    and mono: "\<And>a b. a \<le> b \<Longrightarrow> b < 2 * n + 2 \<Longrightarrow> s a \<le> s b"
    and lk: "\<And>j. j < n \<Longrightarrow> \<exists>a<2 * n + 2. a div 2 = P j \<and> s a = node_weight s j"
    and j: "j \<le> n"
  shows "node_weight s j * 2 ^ (D j div 2) \<le> node_weight s n"
  using j
proof (induction "n - j" arbitrary: j rule: less_induct)
  case less
  show ?case
  proof (cases "j = n")
    case True
    with tree_okD(1) [OF t] show ?thesis
      by simp
  next
    case False
    with less.prems have jn: "j < n"
      by simp
    define p where "p = P j"
    have p: "j < p" "p \<le> n" "D j = D p + 1"
      using tree_okD(2,3,4) [OF t jn] by (simp_all add: p_def)
    from lk [OF jn] obtain a where a: "a < 2 * n + 2" "a div 2 = p" "s a = node_weight s j"
      by (auto simp: p_def)
    then have a2: "a = 2 * p \<or> a = 2 * p + 1"
      by arith
    show ?thesis
    proof (cases "p = n")
      case True
      with p tree_okD(1) [OF t] have "D j div 2 = 0"
        by simp
      moreover have "node_weight s j \<le> node_weight s n"
        using a a2 True by (auto simp: node_weight_def)
      ultimately show ?thesis
        by simp
    next
      case False
      with p have pn: "p < n"
        by simp
      define g where "g = P p"
      have g: "p < g" "g \<le> n" "D p = D g + 1"
        using tree_okD(2,3,4) [OF t pn] by (simp_all add: g_def)
      from lk [OF pn] obtain b where b: "b < 2 * n + 2" "b div 2 = g" "s b = node_weight s p"
        by (auto simp: g_def)
      then have b2: "b = 2 * g \<or> b = 2 * g + 1"
        by arith
      have jp: "node_weight s j \<le> node_weight s p"
        using a a2 by (auto simp: node_weight_def)
      have other: "node_weight s j \<le> s b'" if "b' = 2 * g \<or> b' = 2 * g + 1" for b'
      proof -
        have "a \<le> b'" "b' < 2 * n + 2"
          using that a2 g by arith+
        from mono [OF this] a show ?thesis
          by simp
      qed
      have "2 * node_weight s j \<le> node_weight s g"
      proof (cases "b = 2 * g")
        case True
        with b jp other [of "2 * g + 1"] show ?thesis
          by (simp add: node_weight_def [of s g])
      next
        case False
        with b2 b jp other [of "2 * g"] show ?thesis
          by (simp add: node_weight_def [of s g])
      qed
      moreover have "node_weight s g * 2 ^ (D g div 2) \<le> node_weight s n"
        by (rule less.hyps) (use g p jn in simp_all)
      moreover have "D j div 2 = Suc (D g div 2)"
        using p g by simp
      ultimately have "node_weight s j * 2 ^ (D j div 2) \<le> node_weight s g * 2 ^ (D g div 2)"
        by (simp add: mult_le_mono1 mult.assoc [symmetric] mult.commute [of _ 2])
      with \<open>node_weight s g * 2 ^ (D g div 2) \<le> node_weight s n\<close> show ?thesis
        by simp
    qed
  qed
qed

lemma moffat_deepest_node_sorted:
  fixes A :: "u32 list"
  assumes len: "2 \<le> length A" "length A < 2 ^ 31"
    and srt: "sorted A" and pos: "\<forall>x\<in>set A. x \<noteq> 0"
    and tot: "sum_list (map unat A) < 2 ^ 32"
  shows "\<exists>k\<le>63. moffat_deepest_node A = Some k"
proof -
  define n where "n = length A - 2"
  have M: "length A = n + 2" "2 * (length A - 1) = 2 * n + 2"
    using len by (simp_all add: n_def)
  have "sum_list (map unat A) = (\<Sum>i = 0..<length A. map unat A ! i)"
    by (simp add: sum_list_sum_nth)
  also have "\<dots> = (\<Sum>i = 0..<length A. unat (A ! i))"
    by (rule sum.cong) simp_all
  finally have "sum_list (map unat A) = (\<Sum>i = 0..<length A. unat (A ! i))" .
  with tot have tot': "(\<Sum>i = 0..<length A. unat (A ! i)) < 2 ^ 32"
    by simp
  have "\<exists>A1 s. moffat_phase1 (length A) A = Inr A1
           \<and> (\<forall>a b. a \<le> b \<and> b < 2 * (length A - 1) \<longrightarrow> s a \<le> s b)
           \<and> (\<forall>a<2 * (length A - 1). 1 \<le> s a)
           \<and> (\<forall>j<length A - 2. \<exists>a<2 * (length A - 1). a div 2 = unat (A1 ! j) \<and> s a = node_weight s j)
           \<and> node_weight s (length A - 2) < 2 ^ 32"
  proof (rule moffat_phase1_weights [OF len(1) _ tot'])
    show "length A < 2 ^ 32"
      using len by simp
    show "unat (A ! i) \<le> unat (A ! j)" if "i \<le> j" "j < length A" for i j
      using sorted_nth_mono [OF srt that] by (simp add: word_le_nat_alt)
    show "1 \<le> unat (A ! i)" if "i < length A" for i
    proof -
      have "A ! i \<noteq> 0"
        using pos that by simp
      then have "0 < unat (A ! i)"
        by (simp add: unat_gt_0)
      then show ?thesis
        by simp
    qed
  qed
  then obtain A1 s where A1: "moffat_phase1 (length A) A = Inr A1"
    and mono: "\<And>a b. a \<le> b \<Longrightarrow> b < 2 * n + 2 \<Longrightarrow> s a \<le> s b"
    and ps: "\<And>a. a < 2 * n + 2 \<Longrightarrow> 1 \<le> s a"
    and lk: "\<And>j. j < n \<Longrightarrow> \<exists>a<2 * n + 2. a div 2 = unat (A1 ! j) \<and> s a = node_weight s j"
    and top: "node_weight s n < 2 ^ 32"
    unfolding M(2) n_def [symmetric] by blast
  from moffat_tree_built [OF len]
  obtain B1 A2 k where built: "moffat_phase1 (length A) A = Inr B1 \<and>
      moffat_phase2 (length A) B1 = Inr A2 \<and> length A2 = length A \<and>
      tree_ok (length A - 2) (\<lambda>j. unat (B1 ! j)) (\<lambda>j. unat (A2 ! j)) \<and>
      moffat_deepest_node A = Some k \<and> k = unat (A2 ! 0) \<and> k + 2 \<le> length A"
    by (elim exE)
  then have B1: "moffat_phase1 (length A) A = Inr B1"
    and t': "tree_ok (length A - 2) (\<lambda>j. unat (B1 ! j)) (\<lambda>j. unat (A2 ! j))"
    and k: "moffat_deepest_node A = Some k" "k = unat (A2 ! 0)"
    by blast+
  from A1 B1 have "B1 = A1"
    by simp
  with t' have t: "tree_ok n (\<lambda>j. unat (A1 ! j)) (\<lambda>j. unat (A2 ! j))"
    by (simp add: n_def)
  have a: "node_weight s 0 * 2 ^ (k div 2) \<le> node_weight s n"
    unfolding k(2) by (rule tree_weight_doubles [OF t mono lk]) simp_all
  have "1 \<le> node_weight s 0"
    using ps [of 0] by (simp add: node_weight_def)
  then have "1 * 2 ^ (k div 2) \<le> node_weight s 0 * 2 ^ (k div 2)"
    by (rule mult_le_mono1)
  with a top have lt: "(2::nat) ^ (k div 2) < 2 ^ 32"
    by linarith
  have "k div 2 < 32"
    by (rule power_less_imp_less_exp [OF _ lt]) simp
  then have "k \<le> 63"
    by arith
  with k show ?thesis
    by simp
qed

text \<open>
  C3, the claim as stated.  257 weights \<open>2\<^sup>3\<^sup>2 - 1\<close> are ascending and strictly positive.  Their
  sums wrap around in 32 bits, every sum is below the next weight, and the tree is a chain
  257 levels deep.  The \<^verbatim>\<open>unsigned char depth\<close> of the spread phase wraps from 255 to 0:
  the two deepest symbols get the length 0, the array is \<open>0, 0, 255, 254, \<dots>, 1\<close>, not in
  descending order, and the result is 0, not the largest length.
\<close>

theorem moffatSortedInPlace_257_levels:
  "moffatSortedInPlace (replicate 257 4294967295)
     = Inr (0, 0 # 0 # map of_nat (rev [1..<256])) \<and>
   \<not> descending (0 # 0 # map of_nat (rev [1..<256]) :: u32 list)"
proof -
  define L :: "u32 list" where "L = 0 # 0 # map of_nat (rev [1..<256])"
  have "moffatSortedInPlace (replicate 257 4294967295)
     = Inr (0, 0 # 0 # map of_nat (rev [1..<256]))"
    by code_simp
  moreover have "\<not> descending L"
  proof
    assume d: "descending L"
    have "L ! 2 = 255" "L ! 0 = 0" "2 < length L"
      unfolding L_def by code_simp+
    moreover from d have "L ! 2 \<le> L ! 0" if "2 < length L"
      using that unfolding descending_def by blast
    ultimately show False
      by simp
  qed
  ultimately show ?thesis
    by (simp only: L_def simp_thms)
qed

text \<open>
  C3, with the precondition the code needs.  An empty array gives 0; a single weight gets
  the length 1, which is returned.  For an array of at least two weights that is ascending,
  of strictly positive weights, with a sum below \<open>2\<^sup>3\<^sup>2\<close> (the tree is then at most 64 levels
  deep); or of at most 256 weights, whatever they are; or, in general, with a tree less than
  256 levels deep, that is a deepest internal node of depth at most 254:
  the call returns, the array has its size and is in descending order, and the result is its
  first element, the largest length.
\<close>

theorem moffatSortedInPlace_lengths_descending:
  "moffatSortedInPlace [] = Inr (0, []) \<and>
   moffatSortedInPlace [w] = Inr (1, [1]) \<and>
   (2 \<le> length A \<and> length A < 2 ^ 31 \<and>
    (length A \<le> 256 \<or> (\<exists>k\<le>254. moffat_deepest_node A = Some k) \<or>
     (sorted A \<and> (\<forall>x\<in>set A. x \<noteq> 0) \<and> sum_list (map unat A) < 2 ^ 32)) \<longrightarrow>
      (\<exists>A3. moffatSortedInPlace A = Inr (unat (A3 ! 0), A3) \<and> length A3 = length A \<and>
         descending A3))"
proof (intro conjI impI)
  show "moffatSortedInPlace [] = Inr (0, [])"
    by (simp add: moffatSortedInPlace_def)
  show "moffatSortedInPlace [w] = Inr (1, [1])"
    by (simp add: moffatSortedInPlace_def)
next
  assume a: "2 \<le> length A \<and> length A < 2 ^ 31 \<and>
    (length A \<le> 256 \<or> (\<exists>k\<le>254. moffat_deepest_node A = Some k) \<or>
     (sorted A \<and> (\<forall>x\<in>set A. x \<noteq> 0) \<and> sum_list (map unat A) < 2 ^ 32))"
  then have len: "2 \<le> length A" "length A < 2 ^ 31"
    by simp_all
  from moffat_tree_built [OF len] obtain k where k: "moffat_deepest_node A = Some k"
    "k + 2 \<le> length A"
    by blast
  have "k \<le> 63"
    if "sorted A \<and> (\<forall>x\<in>set A. x \<noteq> 0) \<and> sum_list (map unat A) < 2 ^ 32"
    using moffat_deepest_node_sorted [OF len, of ] that k(1) by auto
  with a k have "k \<le> 254"
    by auto
  from moffatSortedInPlace_shallow [OF len k(1) this]
  show "\<exists>A3. moffatSortedInPlace A = Inr (unat (A3 ! 0), A3) \<and> length A3 = length A \<and>
         descending A3" .
qed

text \<open>The theorem on the weights 1, 1, 2, 5.\<close>

theorem moffatSortedInPlace_lengths_descending_witness:
  "\<exists>A3. moffatSortedInPlace [1, 1, 2, 5] = Inr (unat (A3 ! 0), A3) \<and> length A3 = 4 \<and>
         descending A3"
proof -
  have "2 \<le> length [1, 1, 2, 5 :: u32] \<and> length [1, 1, 2, 5 :: u32] < 2 ^ 31 \<and>
    (length [1, 1, 2, 5 :: u32] \<le> 256 \<or> (\<exists>k\<le>254. moffat_deepest_node [1, 1, 2, 5] = Some k) \<or>
     (sorted [1, 1, 2, 5 :: u32] \<and> (\<forall>x\<in>set [1, 1, 2, 5 :: u32]. x \<noteq> 0) \<and>
      sum_list (map unat [1, 1, 2, 5 :: u32]) < 2 ^ 32))"
    by simp
  with moffatSortedInPlace_lengths_descending [of 0 "[1, 1, 2, 5]"]
  have "\<exists>A3. moffatSortedInPlace [1, 1, 2, 5] = Inr (unat (A3 ! 0), A3) \<and>
         length A3 = length [1, 1, 2, 5 :: u32] \<and> descending A3"
    by blast
  moreover have "length [1, 1, 2, 5 :: u32] = 4"
    by simp
  ultimately show ?thesis
    by (simp only:)
qed

end
